theory Spec2Isabelle
  imports
    Complex_Main
    "HOL-Library.Char_ord"
    "HOL-Library.List_Lexorder"
    "HOL-Library.Product_Lexorder"
    "HOL-Library.Multiset"
begin

section \<open>The student dashboard: tables, filters and aggregates\<close>

text \<open>
  The dashboard of \<^verbatim>\<open>student.py\<close> is one script over six pandas tables. A table is
  modelled as the list of its rows, in row order; a row is a record with one field per
  column the script reads. Text columns are strings, compared by \<open>=\<close> (byte for byte,
  so case matters) and ordered as Python orders \<^verbatim>\<open>str\<close>: lexicographically by
  character code. Numeric columns are exact rationals: the rounding of the 64-bit floats
  pandas computes with is outside the model. A value that pandas reports as NaN or NaT is
  \<open>None\<close>. An exception of the script is a value \<open>Inl e\<close>.
\<close>

datatype error = KeyError | ValueError | IndexError

record summary_row =
  ID :: string
  Name :: string
  Class :: string
  Section :: string
  Gender :: string
  Average_Score :: rat
  Attendance_Rate :: rat
  Submission_Rate :: rat

subsection \<open>Filters (lines 80 to 86)\<close>

text \<open>
  \<^verbatim>\<open>filtered_summary = summary.copy()\<close>, then one boolean-mask selection per selector
  that is not \<^verbatim>\<open>"All"\<close>, in the order class, section, gender.
\<close>

definition applyFilters ::
  "summary_row list \<Rightarrow> string \<Rightarrow> string \<Rightarrow> string \<Rightarrow> summary_row list" where
  "applyFilters summary selected_class selected_section selected_gender =
     (let filtered_summary = summary;
          filtered_summary =
            (if selected_class \<noteq> ''All''
             then filter (\<lambda>r. Class r = selected_class) filtered_summary
             else filtered_summary);
          filtered_summary =
            (if selected_section \<noteq> ''All''
             then filter (\<lambda>r. Section r = selected_section) filtered_summary
             else filtered_summary);
          filtered_summary =
            (if selected_gender \<noteq> ''All''
             then filter (\<lambda>r. Gender r = selected_gender) filtered_summary
             else filtered_summary)
      in filtered_summary)"

subsection \<open>pandas and Python helpers\<close>

text \<open>
  \<^verbatim>\<open>Series.unique()\<close>: the distinct values, in the order of their first appearance.
\<close>

definition unique :: "'a list \<Rightarrow> 'a list" where
  "unique xs = rev (remdups (rev xs))"

text \<open>
  \<^verbatim>\<open>list.index(v)\<close>: the position of the first occurrence; \<^verbatim>\<open>ValueError\<close> when
  there is none.
\<close>

fun list_index :: "'a list \<Rightarrow> 'a \<Rightarrow> error + nat" where
  "list_index [] v = Inl ValueError"
| "list_index (x # xs) v =
     (if x = v then Inr 0
      else (case list_index xs v of Inl e \<Rightarrow> Inl e | Inr i \<Rightarrow> Inr (Suc i)))"

text \<open>
  \<^verbatim>\<open>pd.merge(table, filtered_summary[['ID']], on='ID', how='inner')\<close>: every row of the
  left table once per cohort row with the same ID, in the order of the left table. The right
  side contributes no column but the ID.
\<close>

definition merge_on_ID :: "('a \<Rightarrow> string) \<Rightarrow> 'a list \<Rightarrow> summary_row list \<Rightarrow> 'a list" where
  "merge_on_ID key table cohort =
     concat (map (\<lambda>row. map (\<lambda>_. row) (filter (\<lambda>s. ID s = key row) cohort)) table)"

text \<open>\<^verbatim>\<open>DataFrame.head(n)\<close> for a count \<open>n\<close> that is not negative.\<close>

definition head :: "nat \<Rightarrow> 'a list \<Rightarrow> 'a list" where
  "head n rows = take n rows"

text \<open>
  \<^verbatim>\<open>groupby(key).size()\<close> and \<^verbatim>\<open>groupby(key)[col].mean()\<close>: one entry per key that
  occurs, in ascending key order. \<^verbatim>\<open>mean\<close> of no value is NaN.
\<close>

definition mean :: "rat list \<Rightarrow> rat option" where
  "mean xs = (if xs = [] then None else Some (sum_list xs / of_nat (length xs)))"

definition groupby_size :: "('a \<Rightarrow> 'k::linorder) \<Rightarrow> 'a list \<Rightarrow> ('k \<times> nat) list" where
  "groupby_size key rows =
     map (\<lambda>k. (k, length (filter (\<lambda>r. key r = k) rows))) (sort (remdups (map key rows)))"

definition groupby_mean ::
  "('a \<Rightarrow> 'k::linorder) \<Rightarrow> ('a \<Rightarrow> rat) \<Rightarrow> 'a list \<Rightarrow> ('k \<times> rat option) list" where
  "groupby_mean key col rows =
     map (\<lambda>k. (k, mean (map col (filter (\<lambda>r. key r = k) rows)))) (sort (remdups (map key rows)))"

text \<open>
  The quotient of two count series, \<^verbatim>\<open>a / b\<close>: pandas aligns them on the union of their
  labels, in ascending order, and a label that one side lacks gets NaN. A quotient by a
  count of zero is not a finite number either.
\<close>

definition series_div :: "('k::linorder \<times> nat) list \<Rightarrow> ('k \<times> nat) list \<Rightarrow> ('k \<times> rat option) list" where
  "series_div a b =
     map (\<lambda>k. (k, (case (map_of a k, map_of b k) of
                      (Some x, Some y) \<Rightarrow> (if y = 0 then None else Some (of_nat x / of_nat y))
                    | _ \<Rightarrow> None)))
         (sort (remdups (map fst a @ map fst b)))"

text \<open>
  \<^verbatim>\<open>DataFrame.sort_values(column, ascending=...)\<close> is called with the default
  \<^verbatim>\<open>kind='quicksort'\<close>, which pandas documents as not stable: the call fixes the order of
  the keys, with NaN and NaT last, and nothing about rows with equal keys. The sort is
  therefore a parameter \<open>srt\<close> of the definitions that call it, and \<open>sort_values_spec\<close>
  is what every such call guarantees; the sort that the default kind runs is defined in
  the next subsection. A key is \<open>Some v\<close>, or \<open>None\<close> for NaN and NaT.
\<close>

definition key_le :: "bool \<Rightarrow> 'k::linorder option \<Rightarrow> 'k option \<Rightarrow> bool" where
  "key_le ascending x y =
     (case y of None \<Rightarrow> True
      | Some b \<Rightarrow> (case x of None \<Rightarrow> False
                   | Some a \<Rightarrow> (if ascending then a \<le> b else b \<le> a)))"

definition sort_values_spec ::
  "(('a \<Rightarrow> 'k::linorder option) \<Rightarrow> bool \<Rightarrow> 'a list \<Rightarrow> 'a list) \<Rightarrow> bool" where
  "sort_values_spec srt \<longleftrightarrow>
     (\<forall>key ascending rows.
        mset (srt key ascending rows) = mset rows \<and>
        sorted_wrt (\<lambda>r r'. key_le ascending (key r) (key r')) (srt key ascending rows))"

text \<open>
  A sort that meets \<open>sort_values_spec\<close>: an insertion sort, which keeps rows with equal
  keys in their original order, as \<^verbatim>\<open>kind='stable'\<close> does. It is the order the
  specification names.
\<close>

fun insort_values :: "('a \<Rightarrow> 'k::linorder option) \<Rightarrow> bool \<Rightarrow> 'a \<Rightarrow> 'a list \<Rightarrow> 'a list" where
  "insort_values key ascending x [] = [x]"
| "insort_values key ascending x (y # ys) =
     (if key_le ascending (key x) (key y) then x # y # ys
      else y # insort_values key ascending x ys)"

definition stable_sort_values :: "('a \<Rightarrow> 'k::linorder option) \<Rightarrow> bool \<Rightarrow> 'a list \<Rightarrow> 'a list" where
  "stable_sort_values key ascending rows = foldr (insort_values key ascending) rows []"

subsection \<open>The sort behind \<^verbatim>\<open>sort_values\<close>\<close>

text \<open>
  What the call of lines 109 and 119 runs is library code: for one column,
  \<^verbatim>\<open>DataFrame.sort_values\<close> takes the rows at the positions that pandas'
  \<^verbatim>\<open>nargsort\<close> returns, and \<^verbatim>\<open>nargsort\<close> calls numpy's \<^verbatim>\<open>argsort(kind='quicksort')\<close>
  on the values that are not NaN. The model below follows numpy's portable
  \<^verbatim>\<open>aquicksort\<close> and \<^verbatim>\<open>aheapsort\<close> (\<^verbatim>\<open>npysort/quicksort.cpp\<close>, \<^verbatim>\<open>heapsort.cpp\<close>) and
  pandas' \<^verbatim>\<open>nargsort\<close> (\<^verbatim>\<open>core/sorting.py\<close>); on processors for which numpy has a
  vectorised sort, that one runs instead. The array \<^verbatim>\<open>tosort\<close> of positions is a list,
  a pointer into it an index, \<open>v\<close> the values, \<^verbatim>\<open>Tag::less\<close> the order \<open><\<close>.
\<close>

definition INTP_SWAP :: "nat list \<Rightarrow> nat \<Rightarrow> nat \<Rightarrow> nat list" where
  "INTP_SWAP tosort i j = tosort[i := tosort ! j, j := tosort ! i]"

text \<open>\<^verbatim>\<open>while (unum >>= 1) depth_limit++\<close>.\<close>

fun npy_get_msb :: "nat \<Rightarrow> nat" where
  "npy_get_msb unum = (if unum div 2 = 0 then 0 else Suc (npy_get_msb (unum div 2)))"

text \<open>
  The two scans of the partition, \<^verbatim>\<open>do ++pi; while (less(v[*pi], vp))\<close> and
  \<^verbatim>\<open>do --pj; while (less(vp, v[*pj]))\<close>, after their first step. In the C code they stop
  at the latest at \<^verbatim>\<open>pr - 1\<close>, where the pivot is, and at \<^verbatim>\<open>pl\<close>, where the median
  step left a value that is not greater; the model writes these two bounds out.
\<close>

function scan_up :: "'k::linorder list \<Rightarrow> nat list \<Rightarrow> 'k \<Rightarrow> nat \<Rightarrow> nat \<Rightarrow> nat" where
  "scan_up v tosort vp p_i hi =
     (if p_i < hi \<and> v ! (tosort ! p_i) < vp then scan_up v tosort vp (Suc p_i) hi else p_i)"
  by pat_completeness auto
termination
  by (relation "measure (\<lambda>(v, tosort, vp, p_i, hi). hi - p_i)") auto

fun scan_down :: "'k::linorder list \<Rightarrow> nat list \<Rightarrow> 'k \<Rightarrow> nat \<Rightarrow> nat \<Rightarrow> nat" where
  "scan_down v tosort vp p_j lo =
     (if lo < p_j \<and> vp < v ! (tosort ! p_j) then scan_down v tosort vp (p_j - 1) lo else p_j)"

declare scan_up.simps [simp del] scan_down.simps [simp del]

text \<open>The \<^verbatim>\<open>for (;;)\<close> loop of the partition: scan, stop when the scans meet, else swap.\<close>

function partition_loop ::
  "'k::linorder list \<Rightarrow> nat list \<Rightarrow> 'k \<Rightarrow> nat \<Rightarrow> nat \<Rightarrow> nat \<Rightarrow> nat \<Rightarrow> nat list \<times> nat" where
  "partition_loop v tosort vp pl pr p_i p_j =
     (let p_i = scan_up v tosort vp (Suc p_i) (pr - 1);
          p_j = scan_down v tosort vp (p_j - 1) pl
      in if p_i \<ge> p_j then (tosort, p_i)
         else partition_loop v (INTP_SWAP tosort p_i p_j) vp pl pr p_i p_j)"
  by pat_completeness auto
termination
proof (relation "measure (\<lambda>(v, tosort, vp, pl, pr, p_i, p_j). p_j - p_i)", goal_cases)
  case 1
  show ?case by simp
next
  case (2 v tosort vp pl pr p_i p_j p_i' p_j')
  have up: "a \<le> scan_up v tosort vp a hi" for a hi
    by (induction v tosort vp a hi rule: scan_up.induct) (subst scan_up.simps, auto)
  have down: "scan_down v tosort vp a lo \<le> a" for a lo
    by (induction v tosort vp a lo rule: scan_down.induct) (subst scan_down.simps, auto)
  have "Suc p_i \<le> p_i'" "p_j' \<le> p_j - 1"
    using 2 by (simp_all add: up down)
  with 2 show ?case by simp arith
qed

declare partition_loop.simps [simp del]

text \<open>Median of three, the pivot put at \<^verbatim>\<open>pr - 1\<close>, the loop, the pivot put in place.\<close>

definition median_of_3 :: "'k::linorder list \<Rightarrow> nat list \<Rightarrow> nat \<Rightarrow> nat \<Rightarrow> nat \<Rightarrow> nat list" where
  "median_of_3 v tosort pl pm pr =
     (let tosort = (if v ! (tosort ! pm) < v ! (tosort ! pl) then INTP_SWAP tosort pm pl else tosort);
          tosort = (if v ! (tosort ! pr) < v ! (tosort ! pm) then INTP_SWAP tosort pr pm else tosort);
          tosort = (if v ! (tosort ! pm) < v ! (tosort ! pl) then INTP_SWAP tosort pm pl else tosort)
      in tosort)"

definition quicksort_partition ::
  "'k::linorder list \<Rightarrow> nat list \<Rightarrow> nat \<Rightarrow> nat \<Rightarrow> nat list \<times> nat" where
  "quicksort_partition v tosort pl pr =
     (let pm = pl + (pr - pl) div 2;
          tosort = median_of_3 v tosort pl pm pr;
          vp = v ! (tosort ! pm);
          tosort = INTP_SWAP tosort pm (pr - 1);
          (tosort, p_i) = partition_loop v tosort vp pl pr pl (pr - 1)
      in (INTP_SWAP tosort p_i (pr - 1), p_i))"

text \<open>
  The insertion sort of a short partition: each position from \<^verbatim>\<open>pl + 1\<close> to \<^verbatim>\<open>pr\<close> is
  moved back past the positions whose value is greater.
\<close>

fun insert_back :: "'k::linorder list \<Rightarrow> nat list \<Rightarrow> nat \<Rightarrow> nat \<Rightarrow> nat \<Rightarrow> nat list" where
  "insert_back v tosort vi pl p_j =
     (if pl < p_j \<and> v ! vi < v ! (tosort ! (p_j - 1))
      then insert_back v (tosort[p_j := tosort ! (p_j - 1)]) vi pl (p_j - 1)
      else tosort[p_j := vi])"

declare insert_back.simps [simp del]

definition insertion_sort :: "'k::linorder list \<Rightarrow> nat list \<Rightarrow> nat \<Rightarrow> nat \<Rightarrow> nat list" where
  "insertion_sort v tosort pl pr =
     foldl (\<lambda>tosort p_i. insert_back v tosort (tosort ! p_i) pl p_i) tosort [Suc pl ..< Suc pr]"

text \<open>
  The heap sort that takes over at the depth limit, on the \<open>n\<close> positions from \<open>pl\<close>.
  The C code counts the heap from 1 through a pointer one before the partition; here the
  heap is counted from 0, so the children of \<open>i\<close> are \<open>2 * i + 1\<close> and \<open>2 * i + 2\<close>. The
  inner loop moves the greater child up into the hole \<open>i\<close> while it is greater than
  \<open>tmp\<close>, and then puts \<open>tmp\<close> into the hole.
\<close>

function sift_down :: "'k::linorder list \<Rightarrow> nat list \<Rightarrow> nat \<Rightarrow> nat \<Rightarrow> nat \<Rightarrow> nat \<Rightarrow> nat list" where
  "sift_down v tosort pl tmp i n =
     (let j = 2 * i + 1
      in if j < n
         then (let j = (if j + 1 < n \<and> v ! (tosort ! (pl + j)) < v ! (tosort ! (pl + j + 1))
                        then j + 1 else j)
               in if v ! tmp < v ! (tosort ! (pl + j))
                  then sift_down v (tosort[pl + i := tosort ! (pl + j)]) pl tmp j n
                  else tosort[pl + i := tmp])
         else tosort[pl + i := tmp])"
  by pat_completeness auto
termination
  by (relation "measure (\<lambda>(v, tosort, pl, tmp, i, n). n - i)") auto

declare sift_down.simps [simp del]

definition aheapsort :: "'k::linorder list \<Rightarrow> nat list \<Rightarrow> nat \<Rightarrow> nat \<Rightarrow> nat list" where
  "aheapsort v tosort pl n =
     (let tosort = foldl (\<lambda>tosort l. sift_down v tosort pl (tosort ! (pl + l)) l n)
                     tosort (rev [0 ..< n div 2])
      in foldl (\<lambda>tosort n. sift_down v (tosort[pl + n - 1 := tosort ! pl]) pl
                               (tosort ! (pl + n - 1)) 0 (n - 1))
           tosort (rev [2 ..< Suc n]))"

text \<open>
  The main loop, on the partition from \<open>pl\<close> to \<open>pr\<close> with the stack of the partitions
  put aside, each with its depth. A partition taken from the stack with a negative depth
  is heap sorted. Otherwise, while it has more than 16 positions past \<open>pl\<close>, it is
  partitioned, the larger side is put on the stack and the loop goes on with the smaller
  one (\<open>partitioning\<close>: no depth test inside this inner loop); then it is insertion
  sorted, and the next partition is taken from the stack.
\<close>

function aquicksort_loop ::
  "'k::linorder list \<Rightarrow> nat list \<Rightarrow> nat \<Rightarrow> nat \<Rightarrow> int \<Rightarrow> (nat \<times> nat \<times> int) list \<Rightarrow> bool
     \<Rightarrow> nat list" where
  "aquicksort_loop v tosort pl pr cdepth stack partitioning =
     (if (partitioning \<or> cdepth \<ge> 0) \<and> pr - pl > 16
      then (case quicksort_partition v tosort pl pr of
              (tosort, p_i) \<Rightarrow>
                if p_i - pl < pr - p_i
                then aquicksort_loop v tosort pl (p_i - 1) (cdepth - 1)
                       ((p_i + 1, pr, cdepth - 1) # stack) True
                else aquicksort_loop v tosort (p_i + 1) pr (cdepth - 1)
                       ((pl, p_i - 1, cdepth - 1) # stack) True)
      else (let tosort = (if \<not> partitioning \<and> cdepth < 0
                          then aheapsort v tosort pl (pr - pl + 1)
                          else insertion_sort v tosort pl pr)
            in case stack of
                 [] \<Rightarrow> tosort
               | (pl, pr, cdepth) # stack \<Rightarrow> aquicksort_loop v tosort pl pr cdepth stack False))"
  by pat_completeness auto
termination
proof (relation "measure (\<lambda>(v, tosort, pl, pr, cdepth, stack, partitioning).
    2 * (Suc pr - pl) + 1 + (\<Sum>(l, r, d) \<leftarrow> stack. 2 * (Suc r - l) + 1))", goal_cases)
  case 1
  show ?case by simp
next
  have up: "a \<le> scan_up v tosort vp a hi" for v :: "'a list" and tosort vp a hi
    by (induction v tosort vp a hi rule: scan_up.induct) (subst scan_up.simps, auto)
  have up': "scan_up v tosort vp a hi \<le> max a hi" for v :: "'a list" and tosort vp a hi
    by (induction v tosort vp a hi rule: scan_up.induct) (subst scan_up.simps, auto)
  have down: "scan_down v tosort vp a lo \<le> a" for v :: "'a list" and tosort vp a lo
    by (induction v tosort vp a lo rule: scan_down.induct) (subst scan_down.simps, auto)
  have loop: "p_i < k \<and> k < pr"
    if "p_i < p_j" "p_j < pr" "partition_loop v tosort vp pl pr p_i p_j = (tosort', k)"
    for v :: "'a list" and tosort vp pl pr p_i p_j tosort' k
    using that
  proof (induction v tosort vp pl pr p_i p_j rule: partition_loop.induct)
    case (1 v tosort vp pl pr p_i p_j)
    let ?i = "scan_up v tosort vp (Suc p_i) (pr - 1)"
    let ?j = "scan_down v tosort vp (p_j - 1) pl"
    have i: "Suc p_i \<le> ?i" "?i \<le> max (Suc p_i) (pr - 1)"
      by (rule up, rule up')
    have j: "?j \<le> p_j - 1"
      by (rule down)
    show ?case
    proof (cases "?i \<ge> ?j")
      case True
      with "1.prems" i show ?thesis
        by (subst (asm) partition_loop.simps) (auto simp add: Let_def)
    next
      case False
      with "1.prems"(3)
      have rec: "partition_loop v (INTP_SWAP tosort ?i ?j) vp pl pr ?i ?j = (tosort', k)"
        by (subst (asm) partition_loop.simps) (simp add: Let_def)
      from False j "1.prems" have "?i < ?j" "?j < pr" by auto
      from "1.IH" [OF refl refl False this rec] i show ?thesis
        by simp
    qed
  qed
  have bounds: "pl < k \<and> k < pr"
    if "quicksort_partition v tosort pl pr = (tosort', k)" "16 < pr - pl"
    for v :: "'a list" and tosort pl pr tosort' k
  proof -
    let ?m = "pl + (pr - pl) div 2"
    let ?t = "INTP_SWAP (median_of_3 v tosort pl ?m pr) ?m (pr - 1)"
    let ?vp = "v ! (median_of_3 v tosort pl ?m pr ! ?m)"
    obtain t k' where l: "partition_loop v ?t ?vp pl pr pl (pr - 1) = (t, k')"
      by (cases "partition_loop v ?t ?vp pl pr pl (pr - 1)")
    with that(1) have "k = k'"
      by (auto simp add: quicksort_partition_def Let_def)
    moreover from that(2) have "pl < pr - 1" "pr - 1 < pr" by simp_all
    from loop [OF this l] have "pl < k' \<and> k' < pr" .
    ultimately show ?thesis by simp
  qed
  {
    case 2
    then show ?case by (auto dest!: bounds [OF sym])
  next
    case 3
    then show ?case by (auto dest!: bounds [OF sym])
  next
    case 4
    then show ?case by auto
  }
qed

declare aquicksort_loop.simps [simp del]

definition aquicksort :: "'k::linorder list \<Rightarrow> nat list \<Rightarrow> nat \<Rightarrow> nat list" where
  "aquicksort v tosort num =
     (if num = 0 then tosort
      else aquicksort_loop v tosort 0 (num - 1) (int (npy_get_msb num) * 2) [] False)"

definition argsort :: "'k::linorder list \<Rightarrow> nat list" where
  "argsort v = aquicksort v [0 ..< length v] (length v)"

text \<open>
  \<^verbatim>\<open>nargsort\<close>: the positions of the values that are not NaN are sorted, for a descending
  sort by reversing before and after the ascending sort; the positions of the NaN follow.
\<close>

definition nargsort :: "'k::linorder option list \<Rightarrow> bool \<Rightarrow> nat list" where
  "nargsort items ascending =
     (let idx = [0 ..< length items];
          non_nans = List.map_filter (\<lambda>x. x) items;
          non_nan_idx = filter (\<lambda>i. items ! i \<noteq> None) idx;
          nan_idx = filter (\<lambda>i. items ! i = None) idx;
          non_nans = (if \<not> ascending then rev non_nans else non_nans);
          non_nan_idx = (if \<not> ascending then rev non_nan_idx else non_nan_idx);
          indexer = map (\<lambda>p. non_nan_idx ! p) (argsort non_nans);
          indexer = (if \<not> ascending then rev indexer else indexer)
      in indexer @ nan_idx)"

definition sort_values :: "('a \<Rightarrow> 'k::linorder option) \<Rightarrow> bool \<Rightarrow> 'a list \<Rightarrow> 'a list" where
  "sort_values key ascending rows = map (\<lambda>i. rows ! i) (nargsort (map key rows) ascending)"

subsection \<open>Notions for the correctness of the sort\<close>

text \<open>
  A stretch of the array of positions is sorted when the values at its positions ascend;
  a step permutes a stretch when it keeps the length and the positions as a multiset and
  leaves the array outside the stretch as it was.
\<close>

definition sorted_between :: "'k::linorder list \<Rightarrow> nat list \<Rightarrow> nat \<Rightarrow> nat \<Rightarrow> bool" where
  "sorted_between v t lo hi \<longleftrightarrow>
     (\<forall>i j. lo \<le> i \<and> i < j \<and> j \<le> hi \<longrightarrow> v ! (t ! i) \<le> v ! (t ! j))"

definition permutes_between :: "nat list \<Rightarrow> nat list \<Rightarrow> nat \<Rightarrow> nat \<Rightarrow> bool" where
  "permutes_between t t' lo hi \<longleftrightarrow>
     length t' = length t \<and> mset t' = mset t
     \<and> (\<forall>i. i < length t \<and> (i < lo \<or> hi < i) \<longrightarrow> t' ! i = t ! i)"

text \<open>
  The heap of \<open>n\<close> positions from \<open>pl\<close>: from parent \<open>l\<close> on, no child has a greater
  value than its parent.
\<close>

definition heap_from :: "'k::linorder list \<Rightarrow> nat list \<Rightarrow> nat \<Rightarrow> nat \<Rightarrow> nat \<Rightarrow> bool" where
  "heap_from v t pl l n \<longleftrightarrow>
     (\<forall>p c. l \<le> p \<and> (c = 2 * p + 1 \<or> c = 2 * p + 2) \<and> c < n
        \<longrightarrow> v ! (t ! (pl + c)) \<le> v ! (t ! (pl + p)))"

text \<open>
  The state of the main loop: the partitions still to be sorted lie apart inside the
  array, and two positions that are not in one of them together are already in order.
\<close>

definition ordered_outside :: "'k::linorder list \<Rightarrow> nat list \<Rightarrow> (nat \<times> nat) list \<Rightarrow> bool" where
  "ordered_outside v t rs \<longleftrightarrow>
     (\<forall>i j. i < j \<and> j < length t \<and> (\<forall>(l, r) \<in> set rs. \<not> (l \<le> i \<and> j \<le> r))
        \<longrightarrow> v ! (t ! i) \<le> v ! (t ! j))"

fun ranges_apart :: "nat \<Rightarrow> (nat \<times> nat) list \<Rightarrow> bool" where
  "ranges_apart n [] = True"
| "ranges_apart n ((l, r) # rs) =
     (l \<le> r \<and> r < n \<and> (\<forall>(l', r') \<in> set rs. r < l' \<or> r' < l) \<and> ranges_apart n rs)"

subsection \<open>Section selector (lines 63 to 71)\<close>

definition available_sections :: "summary_row list \<Rightarrow> string \<Rightarrow> string list" where
  "available_sections summary selected_class =
     [''All''] @
     (if selected_class \<noteq> ''All''
      then sort (unique (map Section (filter (\<lambda>r. Class r = selected_class) summary)))
      else [])"

text \<open>
  The \<^verbatim>\<open>index=\<close> argument of the section selector, computed from the section kept in
  the session state.
\<close>

definition section_index :: "string list \<Rightarrow> string \<Rightarrow> error + nat" where
  "section_index options selected_section =
     (if selected_section = ''All'' then Inr 0 else list_index options selected_section)"

text \<open>
  The section the selector holds when the script reruns after a change of class and the
  user has not clicked the section selector again: the option at \<^verbatim>\<open>index\<close>.
\<close>

definition select_section :: "summary_row list \<Rightarrow> string \<Rightarrow> string \<Rightarrow> error + string" where
  "select_section summary selected_class selected_section =
     (let options = available_sections summary selected_class
      in case section_index options selected_section of
           Inl e \<Rightarrow> Inl e
         | Inr i \<Rightarrow> Inr (options ! i))"

subsection \<open>Overview metrics (lines 91 to 94)\<close>

text \<open>
  The text of a metric: the literal \<^verbatim>\<open>N/A\<close>, or a number formatted with one decimal
  (\<^verbatim>\<open>f"{v:.1f}"\<close>), or the same followed by a percent sign. The digits are not modelled:
  \<open>Fixed1 v\<close> stands for the text of \<open>v\<close>.
\<close>

datatype metric_text = N_A | Fixed1 "rat option" | Percent1 "rat option"

record overview =
  Total_Students :: nat
  Average_Score_text :: metric_text
  Average_Attendance_text :: metric_text
  Average_Submission_Rate_text :: metric_text

definition overview_metrics :: "summary_row list \<Rightarrow> overview" where
  "overview_metrics filtered_summary =
     \<lparr> Total_Students = length filtered_summary,
       Average_Score_text =
         (if filtered_summary \<noteq> [] then Fixed1 (mean (map Average_Score filtered_summary))
          else N_A),
       Average_Attendance_text =
         (if filtered_summary \<noteq> []
          then Percent1 (map_option (\<lambda>m. m * 100) (mean (map Attendance_Rate filtered_summary)))
          else N_A),
       Average_Submission_Rate_text =
         (if filtered_summary \<noteq> []
          then Percent1 (map_option (\<lambda>m. m * 100) (mean (map Submission_Rate filtered_summary)))
          else N_A) \<rparr>"

subsection \<open>Top and bottom performers (lines 109 and 119)\<close>

definition top_performers ::
  "((summary_row \<Rightarrow> rat option) \<Rightarrow> bool \<Rightarrow> summary_row list \<Rightarrow> summary_row list)
     \<Rightarrow> summary_row list \<Rightarrow> summary_row list" where
  "top_performers srt filtered_summary =
     head 5 (srt (\<lambda>r. Some (Average_Score r)) False filtered_summary)"

definition bottom_performers ::
  "((summary_row \<Rightarrow> rat option) \<Rightarrow> bool \<Rightarrow> summary_row list \<Rightarrow> summary_row list)
     \<Rightarrow> summary_row list \<Rightarrow> summary_row list" where
  "bottom_performers srt filtered_summary =
     head 5 (srt (\<lambda>r. Some (Average_Score r)) True filtered_summary)"

subsection \<open>Subject and term scores (lines 164 to 179)\<close>

record score_row =
  score_ID :: string
  Subject :: string
  Term :: string
  Score :: rat

definition subject_scores :: "score_row list \<Rightarrow> (string \<times> rat option) list" where
  "subject_scores merged_scores = groupby_mean Subject Score merged_scores"

definition term_scores :: "score_row list \<Rightarrow> ((string \<times> string) \<times> rat option) list" where
  "term_scores merged_scores = groupby_mean (\<lambda>r. (Subject r, Term r)) Score merged_scores"

text \<open>
  The script draws both tables and never combines them. The re-aggregation below follows
  the specification's words: per subject, the mean of the term means, each weighted by the
  row count of its (subject, term) group.
\<close>

fun weighted_sum :: "(rat option \<times> nat) list \<Rightarrow> rat option" where
  "weighted_sum [] = Some 0"
| "weighted_sum ((None, n) # ws) = None"
| "weighted_sum ((Some m, n) # ws) = map_option (\<lambda>s. m * of_nat n + s) (weighted_sum ws)"

definition weighted_mean :: "(rat option \<times> nat) list \<Rightarrow> rat option" where
  "weighted_mean ws =
     (let n = sum_list (map snd ws)
      in if n = 0 then None else map_option (\<lambda>s. s / of_nat n) (weighted_sum ws))"

definition spec_reaggregate_by_subject ::
  "((string \<times> string) \<times> rat option) list \<Rightarrow> ((string \<times> string) \<times> nat) list
     \<Rightarrow> (string \<times> rat option) list" where
  "spec_reaggregate_by_subject term_means term_sizes =
     map (\<lambda>s. (s, weighted_mean
                    (map (\<lambda>(k, m). (m, (case map_of term_sizes k of None \<Rightarrow> 0 | Some n \<Rightarrow> n)))
                         (filter (\<lambda>(k, m). fst k = s) term_means))))
         (sort (remdups (map (\<lambda>(k, m). fst k) term_means)))"

subsection \<open>Resolving a selected name to a student (lines 197 to 210, 272, 339, 405)\<close>

text \<open>
  The performance tab looks the selected name up in the cohort, warns when no row has it,
  asks for an ID when several rows have it, and takes the ID of the only row otherwise.
  A name that Python counts as false (the empty text) skips the drill-down: \<open>None\<close>.
\<close>

datatype resolution = No_Student_Found | Select_ID_Among "string list" | Selected_ID string

definition matching_students :: "summary_row list \<Rightarrow> string \<Rightarrow> summary_row list" where
  "matching_students filtered_summary selected_student =
     filter (\<lambda>r. Name r = selected_student) filtered_summary"

definition selected_id :: "summary_row list \<Rightarrow> string \<Rightarrow> resolution option" where
  "selected_id filtered_summary selected_student =
     (if selected_student = [] then None
      else Some (case matching_students filtered_summary selected_student of
                   [] \<Rightarrow> No_Student_Found
                 | r # rest \<Rightarrow>
                     (if length (r # rest) > 1 then Select_ID_Among (map ID (r # rest))
                      else Selected_ID (ID r))))"

text \<open>
  The attendance, assignment and remark tabs take \<^verbatim>\<open>.values[0]\<close> of the matching IDs:
  the first one, and \<^verbatim>\<open>IndexError\<close> when there is none.
\<close>

definition values_0 :: "'a list \<Rightarrow> error + 'a" where
  "values_0 xs = (case xs of [] \<Rightarrow> Inl IndexError | x # _ \<Rightarrow> Inr x)"

definition student_id_att :: "summary_row list \<Rightarrow> string \<Rightarrow> (error + string) option" where
  "student_id_att filtered_summary selected_student_att =
     (if selected_student_att = [] then None
      else Some (values_0 (map ID (filter (\<lambda>r. Name r = selected_student_att) filtered_summary))))"

definition student_id_assign :: "summary_row list \<Rightarrow> string \<Rightarrow> (error + string) option" where
  "student_id_assign filtered_summary selected_student_assign =
     (if selected_student_assign = [] then None
      else Some (values_0 (map ID (filter (\<lambda>r. Name r = selected_student_assign) filtered_summary))))"

definition student_id_remark :: "summary_row list \<Rightarrow> string \<Rightarrow> (error + string) option" where
  "student_id_remark filtered_summary selected_student_remark =
     (if selected_student_remark = [] then None
      else Some (values_0 (map ID (filter (\<lambda>r. Name r = selected_student_remark) filtered_summary))))"

subsection \<open>Monthly attendance trend (lines 250 to 254)\<close>

text \<open>
  A date is year, month and day, or NaT (\<open>None\<close>). The month label \<^verbatim>\<open>%Y-%m\<close> is kept as
  the pair of year and month, which orders as the four-digit text does.
\<close>

record attendance_row =
  att_ID :: string
  Date :: "(nat \<times> nat \<times> nat) option"
  Present :: bool

definition Month :: "attendance_row \<Rightarrow> (nat \<times> nat) option" where
  "Month a = map_option (\<lambda>(y, m, d). (y, m)) (Date a)"

text \<open>
  \<^verbatim>\<open>groupby(['Month', 'Present']).size().unstack().fillna(0)\<close>: rows without a month are
  dropped by the grouping; the table has one row per month that occurs and one column per
  value of \<^verbatim>\<open>Present\<close> that occurs anywhere, a missing cell being 0. Selecting a column
  that does not exist raises \<^verbatim>\<open>KeyError\<close>.
\<close>

definition month_groups :: "attendance_row list \<Rightarrow> ((nat \<times> nat) \<times> bool) list" where
  "month_groups filtered_attendance =
     List.map_filter (\<lambda>a. map_option (\<lambda>m. (m, Present a)) (Month a)) filtered_attendance"

definition monthly_attendance :: "attendance_row list \<Rightarrow> error + ((nat \<times> nat) \<times> rat) list" where
  "monthly_attendance filtered_attendance =
     (let groups = month_groups filtered_attendance;
          columns = remdups (map snd groups);
          cell = (\<lambda>m p. length (filter (\<lambda>g. g = (m, p)) groups))
      in if True \<notin> set columns then Inl KeyError
         else if False \<notin> set columns then Inl KeyError
         else Inr (map (\<lambda>m. (m, of_nat (cell m True) / of_nat (cell m True + cell m False)))
                       (sort (remdups (map fst groups)))))"

text \<open>The trend is computed when the join is not empty; \<open>None\<close> is no chart.\<close>

definition attendance_trend ::
  "attendance_row list \<Rightarrow> summary_row list \<Rightarrow> error + ((nat \<times> nat) \<times> rat) list option" where
  "attendance_trend attendance filtered_summary =
     (let filtered_attendance = merge_on_ID att_ID attendance filtered_summary
      in if filtered_attendance \<noteq> []
         then (case monthly_attendance filtered_attendance of
                 Inl e \<Rightarrow> Inl e | Inr t \<Rightarrow> Inr (Some t))
         else Inr None)"

subsection \<open>Assignments: loading, completion rate, upcoming deadlines\<close>

text \<open>
  A row of \<^verbatim>\<open>student_assignments.csv\<close> as read, and after
  \<^verbatim>\<open>pd.to_datetime(..., errors='coerce')\<close> (line 23): a deadline is a point in time, or
  NaT where the text did not parse. The parser of dates is a parameter.
\<close>

record assignment_csv_row =
  csv_ID :: string
  csv_Assignment :: string
  csv_Subject :: string
  csv_Deadline :: string
  csv_Submitted :: bool
  csv_Marks :: "rat option"

record assignment_row =
  assign_ID :: string
  Assignment :: string
  assign_Subject :: string
  Deadline :: "int option"
  Submitted :: bool
  Marks :: "rat option"

definition load_assignment :: "(string \<Rightarrow> int option) \<Rightarrow> assignment_csv_row \<Rightarrow> assignment_row" where
  "load_assignment parse r =
     \<lparr> assign_ID = csv_ID r, Assignment = csv_Assignment r, assign_Subject = csv_Subject r,
       Deadline = parse (csv_Deadline r), Submitted = csv_Submitted r, Marks = csv_Marks r \<rparr>"

definition load_assignments ::
  "(string \<Rightarrow> int option) \<Rightarrow> assignment_csv_row list \<Rightarrow> assignment_row list" where
  "load_assignments parse rows = map (load_assignment parse) rows"

text \<open>Lines 302 to 305.\<close>

definition completion_rate :: "assignment_row list \<Rightarrow> (string \<times> rat option) list" where
  "completion_rate filtered_assignments =
     (let completed_assignments =
            groupby_size assign_Subject (filter (\<lambda>a. Submitted a = True) filtered_assignments);
          total_assignments = groupby_size assign_Subject filtered_assignments
      in map (\<lambda>(k, v). (k, map_option (\<lambda>q. q * 100) v))
             (series_div completed_assignments total_assignments))"

definition assignment_completion ::
  "assignment_row list \<Rightarrow> summary_row list \<Rightarrow> (string \<times> rat option) list option" where
  "assignment_completion assignments filtered_summary =
     (let filtered_assignments = merge_on_ID assign_ID assignments filtered_summary
      in if filtered_assignments \<noteq> [] then Some (completion_rate filtered_assignments) else None)"

text \<open>
  Lines 319 to 324. A comparison with NaT is false, so \<^verbatim>\<open>Deadline >= datetime.now()\<close>
  selects no row without a deadline. The table shown is sorted by deadline and cut to ten
  rows; it shows five of the columns, which the model does not cut away.
\<close>

definition upcoming :: "int \<Rightarrow> assignment_row list \<Rightarrow> assignment_row list" where
  "upcoming now filtered_assignments =
     filter (\<lambda>a. (case Deadline a of None \<Rightarrow> False | Some d \<Rightarrow> d \<ge> now)) filtered_assignments"

definition upcoming_display ::
  "((assignment_row \<Rightarrow> int option) \<Rightarrow> bool \<Rightarrow> assignment_row list \<Rightarrow> assignment_row list)
     \<Rightarrow> int \<Rightarrow> assignment_row list \<Rightarrow> assignment_row list" where
  "upcoming_display srt now filtered_assignments =
     (let upcoming_rows = upcoming now filtered_assignments
      in if upcoming_rows \<noteq> [] then head 10 (srt Deadline True upcoming_rows) else [])"

subsection \<open>Example tables\<close>

definition student ::
  "string \<Rightarrow> string \<Rightarrow> string \<Rightarrow> string \<Rightarrow> string \<Rightarrow> rat \<Rightarrow> summary_row" where
  "student i n c s g avg =
     \<lparr> ID = i, Name = n, Class = c, Section = s, Gender = g,
       Average_Score = avg, Attendance_Rate = 9 / 10, Submission_Rate = 3 / 4 \<rparr>"

definition ex_summary :: "summary_row list" where
  "ex_summary =
     [student ''1'' ''A. Kumar'' ''10'' ''A'' ''F'' 80,
      student ''2'' ''B. Singh'' ''10'' ''B'' ''M'' 70,
      student ''3'' ''A. Kumar'' ''10'' ''A'' ''M'' 60,
      student ''4'' ''C. Rao'' ''11'' ''C'' ''F'' 90]"

definition ex_assignments :: "assignment_row list" where
  "ex_assignments =
     [\<lparr> assign_ID = ''1'', Assignment = ''Essay'', assign_Subject = ''English'',
        Deadline = Some 100, Submitted = False, Marks = None \<rparr>,
      \<lparr> assign_ID = ''1'', Assignment = ''Quiz'', assign_Subject = ''Math'',
        Deadline = Some 200, Submitted = True, Marks = Some 70 \<rparr>,
      \<lparr> assign_ID = ''2'', Assignment = ''Quiz'', assign_Subject = ''Math'',
        Deadline = None, Submitted = False, Marks = None \<rparr>]"

definition ex_attendance :: "attendance_row list" where
  "ex_attendance =
     [\<lparr> att_ID = ''4'', Date = Some (2024, 1, 15), Present = True \<rparr>,
      \<lparr> att_ID = ''4'', Date = Some (2024, 2, 1), Present = True \<rparr>,
      \<lparr> att_ID = ''1'', Date = Some (2024, 1, 15), Present = True \<rparr>,
      \<lparr> att_ID = ''1'', Date = Some (2024, 1, 16), Present = False \<rparr>,
      \<lparr> att_ID = ''2'', Date = Some (2024, 2, 1), Present = False \<rparr>]"

text \<open>Eighteen students with the same average score.\<close>

definition tied_cohort :: "summary_row list" where
  "tied_cohort =
     map (\<lambda>i. student i i ''10'' ''A'' ''F'' 50)
       [''01'', ''02'', ''03'', ''04'', ''05'', ''06'', ''07'', ''08'', ''09'',
        ''10'', ''11'', ''12'', ''13'', ''14'', ''15'', ''16'', ''17'', ''18'']"

text \<open>Assignment rows as read, one with a deadline that is not a date, and a parser.\<close>

definition ex_parse :: "string \<Rightarrow> int option" where
  "ex_parse text = map_of [(''2030-01-01'', 200), (''2020-01-01'', 100), (''2031-06-30'', 300)] text"

definition csv_assignment :: "string \<Rightarrow> string \<Rightarrow> string \<Rightarrow> string \<Rightarrow> bool \<Rightarrow> assignment_csv_row" where
  "csv_assignment i a s d sub =
     \<lparr> csv_ID = i, csv_Assignment = a, csv_Subject = s, csv_Deadline = d,
       csv_Submitted = sub, csv_Marks = None \<rparr>"

definition ex_assignments_csv :: "assignment_csv_row list" where
  "ex_assignments_csv =
     [csv_assignment ''1'' ''Project'' ''Math'' ''2031-06-30'' False,
      csv_assignment ''1'' ''Essay'' ''English'' ''next week'' False,
      csv_assignment ''2'' ''Quiz'' ''Math'' ''2020-01-01'' True,
      csv_assignment ''2'' ''Lab'' ''Science'' ''2030-01-01'' False]"

definition ex_scores :: "score_row list" where
  "ex_scores =
     [\<lparr> score_ID = ''1'', Subject = ''Math'', Term = ''T1'', Score = 80 \<rparr>,
      \<lparr> score_ID = ''2'', Subject = ''Math'', Term = ''T1'', Score = 60 \<rparr>,
      \<lparr> score_ID = ''1'', Subject = ''Math'', Term = ''T2'', Score = 90 \<rparr>,
      \<lparr> score_ID = ''1'', Subject = ''English'', Term = ''T1'', Score = 70 \<rparr>,
      \<lparr> score_ID = ''9'', Subject = ''English'', Term = ''T1'', Score = 10 \<rparr>]"

section \<open>Properties\<close>

lemma applyFilters_filter:
  "applyFilters summary c s g =
     filter (\<lambda>r. (c = ''All'' \<or> Class r = c) \<and> (s = ''All'' \<or> Section r = s)
                \<and> (g = ''All'' \<or> Gender r = g)) summary"
  by (auto simp add: applyFilters_def Let_def intro: filter_cong)

subsection \<open>The cohort\<close>

text \<open>
  C1. The cohort is the summary table restricted to the rows that agree with every selector
  other than \<open>All\<close>: it keeps the table's row order, holds only rows of the table, every
  row of it has the selected class, section and gender (compared as texts, so case
  matters), a selector \<open>All\<close> constrains nothing, and when no row agrees the result is
  the empty table.
\<close>

theorem applyFilters_cohort:
  "applyFilters summary c s g =
     filter (\<lambda>r. (c = ''All'' \<or> Class r = c) \<and> (s = ''All'' \<or> Section r = s)
                \<and> (g = ''All'' \<or> Gender r = g)) summary
   \<and> set (applyFilters summary c s g) \<subseteq> set summary
   \<and> (\<forall>r \<in> set (applyFilters summary c s g).
         (c \<noteq> ''All'' \<longrightarrow> Class r = c) \<and> (s \<noteq> ''All'' \<longrightarrow> Section r = s)
         \<and> (g \<noteq> ''All'' \<longrightarrow> Gender r = g))
   \<and> applyFilters summary ''All'' ''All'' ''All'' = summary
   \<and> ((\<forall>r \<in> set summary. \<not> ((c = ''All'' \<or> Class r = c) \<and> (s = ''All'' \<or> Section r = s)
                               \<and> (g = ''All'' \<or> Gender r = g)))
        \<longrightarrow> applyFilters summary c s g = [])"
proof -
  let ?keep = "\<lambda>r. (c = ''All'' \<or> Class r = c) \<and> (s = ''All'' \<or> Section r = s)
                   \<and> (g = ''All'' \<or> Gender r = g)"
  have eq: "applyFilters summary c s g = filter ?keep summary"
    by (rule applyFilters_filter)
  have sub: "set (applyFilters summary c s g) \<subseteq> set summary"
    unfolding eq by auto
  have each: "\<forall>r \<in> set (applyFilters summary c s g).
         (c \<noteq> ''All'' \<longrightarrow> Class r = c) \<and> (s \<noteq> ''All'' \<longrightarrow> Section r = s)
         \<and> (g \<noteq> ''All'' \<longrightarrow> Gender r = g)"
    unfolding eq by auto
  have all: "applyFilters summary ''All'' ''All'' ''All'' = summary"
    by (simp add: applyFilters_def)
  have none: "(\<forall>r \<in> set summary. \<not> ?keep r) \<longrightarrow> applyFilters summary c s g = []"
    unfolding eq by (simp add: filter_empty_conv)
  from eq sub each all none show ?thesis by blast
qed

theorem applyFilters_cohort_witness:
  "applyFilters ex_summary ''10'' ''A'' ''All'' =
     [student ''1'' ''A. Kumar'' ''10'' ''A'' ''F'' 80,
      student ''3'' ''A. Kumar'' ''10'' ''A'' ''M'' 60]
   \<and> set (applyFilters ex_summary ''10'' ''A'' ''All'') \<subseteq> set ex_summary
   \<and> map Class (applyFilters ex_summary ''10'' ''A'' ''All'') = [''10'', ''10'']
   \<and> map Section (applyFilters ex_summary ''10'' ''A'' ''All'') = [''A'', ''A'']
   \<and> applyFilters ex_summary ''10'' ''a'' ''All'' = []"
  using applyFilters_cohort [of ex_summary "''10''" "''A''" "''All''"]
    applyFilters_cohort [of ex_summary "''10''" "''a''" "''All''"]
  by (simp add: ex_summary_def student_def)

subsection \<open>The section selector after a change of class\<close>

lemma list_index_absent: "v \<notin> set xs \<Longrightarrow> list_index xs v = Inl ValueError"
  by (induction xs) auto

lemma list_index_present: "v \<in> set xs \<Longrightarrow> \<exists>i < length xs. list_index xs v = Inr i \<and> xs ! i = v"
proof (induction xs)
  case Nil
  then show ?case by simp
next
  case (Cons x xs)
  show ?case
  proof (cases "x = v")
    case True
    then show ?thesis by auto
  next
    case False
    with Cons obtain i where "i < length xs" "list_index xs v = Inr i" "xs ! i = v"
      by auto
    with False show ?thesis
      by (intro exI [of _ "Suc i"]) simp
  qed
qed

text \<open>
  The options offered for a class are \<open>All\<close> and the sections of the rows of that class,
  each once, in ascending order.
\<close>

lemma available_sections_options:
  assumes "c \<noteq> ''All''"
  shows "available_sections summary c =
           ''All'' # sort (remdups (map Section (filter (\<lambda>r. Class r = c) summary)))"
    and "set (available_sections summary c) =
           insert ''All'' (Section ` {r \<in> set summary. Class r = c})"
proof -
  let ?xs = "map Section (filter (\<lambda>r. Class r = c) summary)"
  have "sorted (sort (unique ?xs))" "distinct (sort (unique ?xs))"
    "sorted (sort (remdups ?xs))" "distinct (sort (remdups ?xs))"
    "set (sort (unique ?xs)) = set (sort (remdups ?xs))"
    by (simp_all add: unique_def)
  then have "sort (unique ?xs) = sort (remdups ?xs)"
    by (metis sorted_distinct_set_unique)
  with assms show "available_sections summary c = ''All'' # sort (remdups ?xs)"
    by (simp add: available_sections_def)
  from assms show "set (available_sections summary c) =
           insert ''All'' (Section ` {r \<in> set summary. Class r = c})"
    by (auto simp add: available_sections_def unique_def)
qed

text \<open>
  A section kept from the previous class that the new class does not have makes the script
  stop with \<^verbatim>\<open>ValueError\<close>; a section that the new class has is kept.
\<close>

lemma select_section_stale:
  assumes "selected_section \<noteq> ''All''"
    and "selected_section \<notin> set (available_sections summary c)"
  shows "select_section summary c selected_section = Inl ValueError"
  using assms by (simp add: select_section_def section_index_def list_index_absent)

lemma select_section_kept:
  assumes "selected_section \<in> set (available_sections summary c)"
  shows "select_section summary c selected_section = Inr selected_section"
proof (cases "selected_section = ''All''")
  case True
  then show ?thesis
    by (simp add: select_section_def section_index_def available_sections_def)
next
  case False
  from list_index_present [OF assms] obtain i where
    "list_index (available_sections summary c) selected_section = Inr i"
    "available_sections summary c ! i = selected_section"
    by blast
  with False show ?thesis
    by (simp add: select_section_def section_index_def)
qed

text \<open>
  C2. With section \<open>A\<close> selected under class \<open>10\<close>, changing the class to \<open>11\<close>, whose
  only section is \<open>C\<close>, offers the options \<open>All\<close> and \<open>C\<close> and raises
  \<^verbatim>\<open>ValueError\<close>: the section is not reset to \<open>All\<close>.
\<close>

theorem select_section_raises_on_stale_section:
  "available_sections ex_summary ''11'' = [''All'', ''C'']
   \<and> select_section ex_summary ''10'' ''A'' = Inr ''A''
   \<and> select_section ex_summary ''11'' ''A'' = Inl ValueError
   \<and> select_section ex_summary ''11'' ''A'' \<noteq> Inr ''All''"
  by (simp add: select_section_def available_sections_def section_index_def
      ex_summary_def student_def unique_def)

subsection \<open>Resolving a name\<close>

text \<open>
  C3. Two rows of the cohort are named \<open>A. Kumar\<close>, with the IDs 1 and 3. The performance
  tab asks the user to choose between the two IDs; the attendance, assignment and remark
  tabs take ID 1, the first match, without asking.
\<close>

theorem drill_down_takes_first_match:
  "selected_id ex_summary ''A. Kumar'' = Some (Select_ID_Among [''1'', ''3''])
   \<and> student_id_att ex_summary ''A. Kumar'' = Some (Inr ''1'')
   \<and> student_id_assign ex_summary ''A. Kumar'' = Some (Inr ''1'')
   \<and> student_id_remark ex_summary ''A. Kumar'' = Some (Inr ''1'')"
  by (simp add: selected_id_def matching_students_def student_id_att_def
      student_id_assign_def student_id_remark_def values_0_def ex_summary_def student_def)

subsection \<open>Overview metrics\<close>

text \<open>
  C6. For the empty cohort the count is 0 and each of the three means is the text
  \<open>N/A\<close>, which is not the text of a zero. For a cohort with rows, the count is the
  number of rows and the texts are those of the arithmetic means of the three columns, the
  two rates as percentages.
\<close>

theorem overview_metrics_means:
  "overview_metrics [] =
     \<lparr> Total_Students = 0, Average_Score_text = N_A, Average_Attendance_text = N_A,
       Average_Submission_Rate_text = N_A \<rparr>
   \<and> N_A \<noteq> Fixed1 (Some 0) \<and> N_A \<noteq> Percent1 (Some 0)
   \<and> (cohort \<noteq> [] \<longrightarrow>
        overview_metrics cohort =
          \<lparr> Total_Students = length cohort,
            Average_Score_text =
              Fixed1 (Some (sum_list (map Average_Score cohort) / of_nat (length cohort))),
            Average_Attendance_text =
              Percent1 (Some (sum_list (map Attendance_Rate cohort) / of_nat (length cohort) * 100)),
            Average_Submission_Rate_text =
              Percent1 (Some (sum_list (map Submission_Rate cohort) / of_nat (length cohort) * 100)) \<rparr>)"
  by (simp add: overview_metrics_def mean_def)

theorem overview_metrics_means_witness:
  "ex_summary \<noteq> []
   \<and> overview_metrics ex_summary =
       \<lparr> Total_Students = 4, Average_Score_text = Fixed1 (Some 75),
         Average_Attendance_text = Percent1 (Some 90),
         Average_Submission_Rate_text = Percent1 (Some 75) \<rparr>
   \<and> overview_metrics [] =
       \<lparr> Total_Students = 0, Average_Score_text = N_A, Average_Attendance_text = N_A,
         Average_Submission_Rate_text = N_A \<rparr>"
  using overview_metrics_means [of ex_summary]
  by (simp add: ex_summary_def student_def)

subsection \<open>Grouping\<close>

lemma map_of_keyed:
  "map_of (map (\<lambda>k. (k, f k)) ks) k = (if k \<in> set ks then Some (f k) else None)"
  by (induction ks) auto

lemma sort_remdups_eqI:
  fixes xs ys :: "'a::linorder list"
  assumes "set xs = set ys"
  shows "sort (remdups xs) = sort (remdups ys)"
proof -
  have "sorted (sort (remdups xs))" "distinct (sort (remdups xs))"
    "sorted (sort (remdups ys))" "distinct (sort (remdups ys))"
    "set (sort (remdups xs)) = set (sort (remdups ys))"
    using assms by simp_all
  then show ?thesis by (metis sorted_distinct_set_unique)
qed

subsection \<open>Assignment completion\<close>

text \<open>
  The completion table has one entry per subject of the joined rows, in ascending order.
  A subject with a submitted row gets its percentage; a subject whose rows are all
  unsubmitted has no label in the series of completed counts and gets NaN.
\<close>

lemma completion_rate_entries:
  "completion_rate fa =
     map (\<lambda>k. (k, (if \<exists>a \<in> set fa. Submitted a \<and> assign_Subject a = k
                   then Some (of_nat (length (filter (\<lambda>a. assign_Subject a = k) (filter Submitted fa)))
                              / of_nat (length (filter (\<lambda>a. assign_Subject a = k) fa)) * 100)
                   else None)))
         (sort (remdups (map assign_Subject fa)))"
proof -
  let ?done = "filter (\<lambda>a. Submitted a = True) fa"
  let ?A = "sort (remdups (map assign_Subject ?done))"
  let ?B = "sort (remdups (map assign_Subject fa))"
  have keys: "sort (remdups (?A @ ?B)) = ?B"
    by (rule trans [OF sort_remdups_eqI [of _ "map assign_Subject fa"]]) auto
  have total: "0 < length (filter (\<lambda>a. assign_Subject a = k) fa)" if "k \<in> set ?B" for k
    using that by (auto simp add: filter_empty_conv)
  have inA: "k \<in> set ?A \<longleftrightarrow> (\<exists>a \<in> set fa. Submitted a \<and> assign_Subject a = k)" for k
    by auto
  show ?thesis
    unfolding completion_rate_def groupby_size_def series_div_def Let_def
    apply (simp only: map_map comp_def fst_conv map_ident keys)
    apply (rule map_cong [OF refl])
    subgoal for k
      using total [of k] inA [of k]
      by (simp add: map_of_keyed)
    done
qed

text \<open>
  C4. Student 1 has one English assignment, not submitted, and one Math assignment,
  submitted; student 2 has one Math assignment, not submitted. The rate of Math is 50.
  The rate of English, which has a row and no submitted row, is NaN and not 0.
\<close>

theorem completion_rate_nan_without_submission:
  "assignment_completion ex_assignments ex_summary =
     Some [(''English'', None), (''Math'', Some 50)]
   \<and> assignment_completion ex_assignments ex_summary \<noteq>
     Some [(''English'', Some 0), (''Math'', Some 50)]"
  by (simp add: assignment_completion_def ex_assignments_def ex_summary_def student_def
      merge_on_ID_def completion_rate_def groupby_size_def series_div_def)

subsection \<open>Monthly attendance\<close>

lemma set_month_groups:
  "set (month_groups fa) = {(m, Present a) | m a. a \<in> set fa \<and> Month a = Some m}"
proof (induction fa)
  case Nil
  show ?case by (simp add: month_groups_def)
next
  case (Cons a fa)
  then show ?case
    by (cases "Month a") (auto simp add: month_groups_def map_filter_simps)
qed

lemma length_filter_month_groups:
  "length (filter (\<lambda>g. g = (m, p)) (month_groups fa)) =
     length (filter (\<lambda>a. Month a = Some m \<and> Present a = p) fa)"
proof (induction fa)
  case Nil
  show ?case by (simp add: month_groups_def)
next
  case (Cons a fa)
  then show ?case
    by (cases "Month a") (auto simp add: month_groups_def map_filter_simps)
qed

lemma ratio_le_1: "rat_of_nat p / rat_of_nat (p + a) \<le> 1"
proof (cases "p + a = 0")
  case True
  then show ?thesis by simp
next
  case False
  then have "0 < p + a"
    by simp
  then have "0 < rat_of_nat (p + a)"
    by (rule iffD2 [OF of_nat_0_less_iff])
  moreover have "rat_of_nat p \<le> rat_of_nat (p + a)"
    by simp
  ultimately show ?thesis
    by (simp only: divide_le_eq_1_pos)
qed

lemma monthly_attendance_groups:
  "monthly_attendance fa =
     (if True \<notin> snd ` set (month_groups fa) \<or> False \<notin> snd ` set (month_groups fa)
      then Inl KeyError
      else Inr (map (\<lambda>m. (m, of_nat (length (filter (\<lambda>g. g = (m, True)) (month_groups fa)))
                            / of_nat (length (filter (\<lambda>g. g = (m, True)) (month_groups fa))
                                      + length (filter (\<lambda>g. g = (m, False)) (month_groups fa)))))
                    (sort (remdups (map fst (month_groups fa))))))"
  by (simp add: monthly_attendance_def Let_def)

text \<open>
  When the dated rows of the join are all present, or all absent, the table has one column
  only and the rate cannot be computed: \<^verbatim>\<open>KeyError\<close>.
\<close>

lemma monthly_attendance_missing_column:
  assumes "(\<forall>a \<in> set fa. Month a \<noteq> None \<longrightarrow> Present a)
           \<or> (\<forall>a \<in> set fa. Month a \<noteq> None \<longrightarrow> \<not> Present a)"
  shows "monthly_attendance fa = Inl KeyError"
proof -
  from assms have "True \<notin> snd ` set (month_groups fa) \<or> False \<notin> snd ` set (month_groups fa)"
    by (auto simp add: set_month_groups)
  then show ?thesis
    by (simp only: monthly_attendance_groups if_True)
qed

text \<open>
  When the trend is computed, each of its months has an observation in the join, and its
  rate is the share of present rows among that month's rows, between 0 and 1.
\<close>

lemma monthly_attendance_rates:
  assumes "monthly_attendance fa = Inr t" and "(m, q) \<in> set t"
  defines "P \<equiv> length (filter (\<lambda>a. Month a = Some m \<and> Present a = True) fa)"
    and "A \<equiv> length (filter (\<lambda>a. Month a = Some m \<and> Present a = False) fa)"
  shows "0 < P + A \<and> q = of_nat P / of_nat (P + A) \<and> 0 \<le> q \<and> q \<le> 1"
proof -
  from assms(1,2) have m: "m \<in> fst ` set (month_groups fa)" and q: "q = of_nat P / of_nat (P + A)"
    by (auto simp add: monthly_attendance_groups length_filter_month_groups P_def A_def
        split: if_splits)
  from m obtain a where a: "a \<in> set fa" "Month a = Some m"
    by (auto simp add: set_month_groups)
  have "0 < P + A"
  proof (cases "Present a")
    case True
    with a have "filter (\<lambda>a. Month a = Some m \<and> Present a = True) fa \<noteq> []"
      by (auto simp add: filter_empty_conv)
    then show ?thesis by (simp add: P_def)
  next
    case False
    with a have "filter (\<lambda>a. Month a = Some m \<and> Present a = False) fa \<noteq> []"
      by (auto simp add: filter_empty_conv)
    then show ?thesis by (simp add: A_def)
  qed
  moreover have "0 \<le> q" unfolding q by simp
  moreover have "q \<le> 1" unfolding q by (rule ratio_le_1)
  ultimately show ?thesis using q by blast
qed

text \<open>
  C7. The cohort of class 11 is student 4, whose two attendance rows, in January and
  February 2024, are both present. The join is not empty, no row of it is absent, and the
  trend raises \<^verbatim>\<open>KeyError\<close>. On the whole cohort, which has present and absent rows, the
  rates are two thirds and one half.
\<close>

theorem attendance_trend_raises_without_absence:
  "merge_on_ID att_ID ex_attendance (applyFilters ex_summary ''11'' ''All'' ''All'') =
     [\<lparr> att_ID = ''4'', Date = Some (2024, 1, 15), Present = True \<rparr>,
      \<lparr> att_ID = ''4'', Date = Some (2024, 2, 1), Present = True \<rparr>]
   \<and> attendance_trend ex_attendance (applyFilters ex_summary ''11'' ''All'' ''All'') =
       Inl KeyError
   \<and> attendance_trend ex_attendance ex_summary =
       Inr (Some [((2024, 1), 2 / 3), ((2024, 2), 1 / 2)])"
  by (simp add: attendance_trend_def monthly_attendance_def month_groups_def
      List.map_filter_def Month_def merge_on_ID_def applyFilters_def
      ex_attendance_def ex_summary_def student_def)

subsection \<open>Sorting\<close>

lemma key_le_total: "key_le asc x y \<or> key_le asc y x"
  by (auto simp add: key_le_def split: option.splits)

lemma key_le_trans: "key_le asc x y \<Longrightarrow> key_le asc y z \<Longrightarrow> key_le asc x z"
  by (auto simp add: key_le_def split: option.splits if_splits)

lemma mset_insort_values: "mset (insort_values key asc x xs) = add_mset x (mset xs)"
  by (induction xs) auto

lemma set_insort_values: "set (insort_values key asc x xs) = insert x (set xs)"
  by (induction xs) auto

lemma sorted_insort_values:
  assumes "sorted_wrt (\<lambda>r r'. key_le asc (key r) (key r')) xs"
  shows "sorted_wrt (\<lambda>r r'. key_le asc (key r) (key r')) (insort_values key asc x xs)"
  using assms
proof (induction xs)
  case Nil
  show ?case by simp
next
  case (Cons y ys)
  show ?case
  proof (cases "key_le asc (key x) (key y)")
    case True
    with Cons.prems show ?thesis
      by (auto intro: key_le_trans)
  next
    case False
    with key_le_total [of asc "key x" "key y"] have "key_le asc (key y) (key x)"
      by blast
    with False Cons show ?thesis
      by (auto simp add: set_insort_values)
  qed
qed

lemma mset_stable_sort_values: "mset (stable_sort_values key asc rows) = mset rows"
  by (induction rows) (simp_all add: stable_sort_values_def mset_insort_values)

lemma sorted_stable_sort_values:
  "sorted_wrt (\<lambda>r r'. key_le asc (key r) (key r')) (stable_sort_values key asc rows)"
  by (induction rows) (simp_all add: stable_sort_values_def sorted_insort_values)

lemma stable_sort_values_spec: "sort_values_spec stable_sort_values"
  by (simp add: sort_values_spec_def mset_stable_sort_values sorted_stable_sort_values)

lemma key_le_refl: "key_le asc x x"
  by (simp add: key_le_def split: option.splits)

lemma filter_key_insort_values:
  "filter (\<lambda>r. key r = k) (insort_values key asc x xs) =
     (if key x = k then x # filter (\<lambda>r. key r = k) xs else filter (\<lambda>r. key r = k) xs)"
  by (induction xs) (auto simp add: key_le_refl)

lemma stable_sort_values_stable:
  "filter (\<lambda>r. key r = k) (stable_sort_values key asc rows) = filter (\<lambda>r. key r = k) rows"
  by (induction rows) (simp_all add: stable_sort_values_def filter_key_insort_values)

subsection \<open>The library sort sorts\<close>

text \<open>Permutations of a stretch.\<close>

lemma permutes_between_refl: "permutes_between t t lo hi"
  by (simp add: permutes_between_def)

lemma permutes_between_trans:
  "permutes_between t t' lo hi \<Longrightarrow> permutes_between t' t'' lo hi \<Longrightarrow> permutes_between t t'' lo hi"
  by (simp add: permutes_between_def)

lemma permutes_between_mono:
  "permutes_between t t' lo hi \<Longrightarrow> lo' \<le> lo \<Longrightarrow> hi \<le> hi' \<Longrightarrow> permutes_between t t' lo' hi'"
  by (auto simp add: permutes_between_def)

lemma permutes_between_swap:
  assumes "lo \<le> i" "i \<le> hi" "lo \<le> j" "j \<le> hi" "hi < length t"
  shows "permutes_between t (INTP_SWAP t i j) lo hi"
  using assms by (auto simp add: permutes_between_def INTP_SWAP_def mset_swap)

lemma permutes_between_slice:
  assumes "permutes_between t t' lo hi" and "hi < length t"
  shows "mset (take (Suc hi - lo) (drop lo t')) = mset (take (Suc hi - lo) (drop lo t))"
proof -
  from assms have len: "length t' = length t" and m: "mset t' = mset t"
    and out: "\<And>i. i < length t \<Longrightarrow> i < lo \<or> hi < i \<Longrightarrow> t' ! i = t ! i"
    by (simp_all add: permutes_between_def)
  have l: "take lo t' = take lo t"
    using len out by (intro nth_equalityI) simp_all
  have r: "drop (Suc hi) t' = drop (Suc hi) t"
    using len out by (intro nth_equalityI) simp_all
  have split: "xs = take lo xs @ take (Suc hi - lo) (drop lo xs) @ drop (Suc hi) xs"
    if "lo \<le> Suc hi" for xs :: "nat list"
    using that by (metis append_take_drop_id drop_drop le_add_diff_inverse2 add.commute)
  show ?thesis
  proof (cases "lo \<le> Suc hi")
    case True
    from split [OF True, of t] split [OF True, of t'] m l r
    have "mset (take lo t) + mset (take (Suc hi - lo) (drop lo t')) + mset (drop (Suc hi) t)
        = mset (take lo t) + mset (take (Suc hi - lo) (drop lo t)) + mset (drop (Suc hi) t)"
      by (metis mset_append union_assoc)
    then show ?thesis by simp
  next
    case False
    then show ?thesis by simp
  qed
qed

lemma permutes_between_all:
  assumes "permutes_between t t' lo hi" and "hi < length t"
    and "\<And>x. lo \<le> x \<Longrightarrow> x \<le> hi \<Longrightarrow> P (t ! x)"
    and "lo \<le> y" "y \<le> hi"
  shows "P (t' ! y)"
proof -
  from assms(1) have len: "length t' = length t" by (simp add: permutes_between_def)
  have "t' ! y = take (Suc hi - lo) (drop lo t') ! (y - lo)"
    using assms(2,4,5) len by simp
  moreover have "y - lo < length (take (Suc hi - lo) (drop lo t'))"
    using assms(2,4,5) len by simp
  ultimately have "t' ! y \<in> set (take (Suc hi - lo) (drop lo t'))"
    by (metis nth_mem)
  also have "\<dots> = set (take (Suc hi - lo) (drop lo t))"
    using permutes_between_slice [OF assms(1,2)] by (rule mset_eq_setD)
  finally obtain k where "k < length (take (Suc hi - lo) (drop lo t))"
    "take (Suc hi - lo) (drop lo t) ! k = t' ! y"
    by (auto simp add: in_set_conv_nth)
  then have "t' ! y = t ! (lo + k)" "lo + k \<le> hi"
    using assms(2) by auto
  with assms(3) [of "lo + k"] show ?thesis by simp
qed

text \<open>
  The partition: each scan stops inside the partition, and when the loop ends the values
  before the meeting point are not greater and those from it on are not less than the
  pivot.
\<close>

lemma scan_up_spec:
  assumes "a \<le> hi"
  shows "a \<le> scan_up v t vp a hi \<and> scan_up v t vp a hi \<le> hi
       \<and> (\<forall>x. a \<le> x \<and> x < scan_up v t vp a hi \<longrightarrow> v ! (t ! x) < vp)
       \<and> (scan_up v t vp a hi < hi \<longrightarrow> \<not> v ! (t ! scan_up v t vp a hi) < vp)"
  using assms
proof (induction v t vp a hi rule: scan_up.induct)
  case (1 v t vp a hi)
  show ?case
  proof (cases "a < hi \<and> v ! (t ! a) < vp")
    case True
    then have eq: "scan_up v t vp a hi = scan_up v t vp (Suc a) hi"
      by (subst scan_up.simps) simp
    from True "1.IH" have IH: "Suc a \<le> scan_up v t vp (Suc a) hi \<and> scan_up v t vp (Suc a) hi \<le> hi
       \<and> (\<forall>x. Suc a \<le> x \<and> x < scan_up v t vp (Suc a) hi \<longrightarrow> v ! (t ! x) < vp)
       \<and> (scan_up v t vp (Suc a) hi < hi \<longrightarrow> \<not> v ! (t ! scan_up v t vp (Suc a) hi) < vp)"
      by simp
    have "x = a \<or> Suc a \<le> x" if "a \<le> x" for x
      using that by arith
    then show ?thesis
      unfolding eq using IH True by auto
  next
    case False
    then have eq: "scan_up v t vp a hi = a"
      by (subst scan_up.simps) auto
    show ?thesis
      unfolding eq using False "1.prems" by auto
  qed
qed

lemma scan_down_spec:
  assumes "lo \<le> a"
  shows "lo \<le> scan_down v t vp a lo \<and> scan_down v t vp a lo \<le> a
       \<and> (\<forall>x. scan_down v t vp a lo < x \<and> x \<le> a \<longrightarrow> vp < v ! (t ! x))
       \<and> (lo < scan_down v t vp a lo \<longrightarrow> \<not> vp < v ! (t ! scan_down v t vp a lo))"
  using assms
proof (induction v t vp a lo rule: scan_down.induct)
  case (1 v t vp a lo)
  show ?case
  proof (cases "lo < a \<and> vp < v ! (t ! a)")
    case True
    then have eq: "scan_down v t vp a lo = scan_down v t vp (a - 1) lo"
      by (subst scan_down.simps) simp
    from True have "lo \<le> a - 1" by arith
    with True "1.IH" have IH: "lo \<le> scan_down v t vp (a - 1) lo \<and> scan_down v t vp (a - 1) lo \<le> a - 1
       \<and> (\<forall>x. scan_down v t vp (a - 1) lo < x \<and> x \<le> a - 1 \<longrightarrow> vp < v ! (t ! x))
       \<and> (lo < scan_down v t vp (a - 1) lo \<longrightarrow> \<not> vp < v ! (t ! scan_down v t vp (a - 1) lo))"
      by simp
    have "x \<le> a - 1 \<or> x = a" if "x \<le> a" for x
      using that by arith
    then show ?thesis
      unfolding eq using IH True by (auto simp del: One_nat_def)
  next
    case False
    then have eq: "scan_down v t vp a lo = a"
      by (subst scan_down.simps) auto
    show ?thesis
      unfolding eq using False "1.prems" by auto
  qed
qed

lemma nth_INTP_SWAP:
  assumes "i < length t" "j < length t"
  shows "INTP_SWAP t i j ! x = (if x = j then t ! i else if x = i then t ! j else t ! x)"
  using assms by (auto simp add: INTP_SWAP_def nth_list_update)

lemma length_INTP_SWAP [simp]: "length (INTP_SWAP t i j) = length t"
  by (simp add: INTP_SWAP_def)

lemma partition_loop_spec:
  assumes "pl \<le> p_i" "p_i < p_j" "p_j < pr" "pr < length t"
    and "\<forall>x. pl \<le> x \<and> x \<le> p_i \<longrightarrow> v ! (t ! x) \<le> vp"
    and "\<forall>x. p_j \<le> x \<and> x \<le> pr \<longrightarrow> vp \<le> v ! (t ! x)"
    and "partition_loop v t vp pl pr p_i p_j = (t', k)"
  shows "p_i < k \<and> k < pr \<and> permutes_between t t' (Suc p_i) (p_j - 1)
       \<and> (\<forall>x. pl \<le> x \<and> x < k \<longrightarrow> v ! (t' ! x) \<le> vp)
       \<and> (\<forall>x. k \<le> x \<and> x \<le> pr \<longrightarrow> vp \<le> v ! (t' ! x))"
  using assms
proof (induction v t vp pl pr p_i p_j rule: partition_loop.induct)
  case (1 v t vp pl pr p_i p_j)
  let ?i = "scan_up v t vp (Suc p_i) (pr - 1)"
  let ?j = "scan_down v t vp (p_j - 1) pl"
  from "1.prems" have "Suc p_i \<le> pr - 1" "pl \<le> p_j - 1" by simp_all
  note i = scan_up_spec [OF this(1), of v t vp]
  note j = scan_down_spec [OF \<open>pl \<le> p_j - 1\<close>, of v t vp]
  from i have i1: "Suc p_i \<le> ?i" and i2: "?i \<le> pr - 1"
    and i3: "\<And>x. Suc p_i \<le> x \<Longrightarrow> x < ?i \<Longrightarrow> v ! (t ! x) < vp"
    and i4: "?i < pr - 1 \<Longrightarrow> \<not> v ! (t ! ?i) < vp"
    by blast+
  from j have j1: "pl \<le> ?j" and j2: "?j \<le> p_j - 1"
    and j3: "\<And>x. ?j < x \<Longrightarrow> x \<le> p_j - 1 \<Longrightarrow> vp < v ! (t ! x)"
    and j4: "pl < ?j \<Longrightarrow> \<not> vp < v ! (t ! ?j)"
    by blast+
  note lo = "1.prems"(5) [rule_format]
  note hi = "1.prems"(6) [rule_format]
  show ?case
  proof (cases "?i \<ge> ?j")
    case True
    with "1.prems"(7) have res: "t' = t" "k = ?i"
      by (subst (asm) partition_loop.simps, simp add: Let_def)+
    have left: "v ! (t ! x) \<le> vp" if "pl \<le> x" "x < ?i" for x
    proof (cases "x \<le> p_i")
      case True
      with that lo show ?thesis by simp
    next
      case False
      with that i3 [of x] show ?thesis by simp
    qed
    have right: "vp \<le> v ! (t ! x)" if "?i \<le> x" "x \<le> pr" for x
    proof (cases "p_j \<le> x")
      case True
      with that hi show ?thesis by simp
    next
      case False
      show ?thesis
      proof (cases "x = ?i")
        case True
        with False "1.prems" have "?i < pr - 1" by simp
        from i4 [OF this] True show ?thesis by simp
      next
        case x: False
        with that True False have "?j < x" "x \<le> p_j - 1" by arith+
        from j3 [OF this] show ?thesis by simp
      qed
    qed
    from i1 i2 "1.prems" left right show ?thesis
      unfolding res by (auto simp add: permutes_between_refl)
  next
    case False
    then have ij: "?i < ?j" by simp
    let ?t = "INTP_SWAP t ?i ?j"
    from False "1.prems"(7) have rec: "partition_loop v ?t vp pl pr ?i ?j = (t', k)"
      by (subst (asm) partition_loop.simps) (simp add: Let_def)
    from ij i1 i2 j1 j2 "1.prems" have bounds: "?i < length t" "?j < length t" "?j < pr" "pl \<le> ?i"
      "pl < ?j" "?i < pr - 1"
      by simp_all
    have lo': "\<forall>x. pl \<le> x \<and> x \<le> ?i \<longrightarrow> v ! (?t ! x) \<le> vp"
    proof (intro allI impI)
      fix x assume x: "pl \<le> x \<and> x \<le> ?i"
      show "v ! (?t ! x) \<le> vp"
      proof (cases "x = ?i")
        case True
        with ij bounds j4 show ?thesis by (simp add: nth_INTP_SWAP)
      next
        case False
        with x ij have "?t ! x = t ! x" using bounds by (simp add: nth_INTP_SWAP)
        moreover have "v ! (t ! x) \<le> vp"
        proof (cases "x \<le> p_i")
          case True
          with x lo show ?thesis by simp
        next
          case p: False
          with x False have "Suc p_i \<le> x" "x < ?i" by arith+
          from i3 [OF this] show ?thesis by simp
        qed
        ultimately show ?thesis by simp
      qed
    qed
    have hi': "\<forall>x. ?j \<le> x \<and> x \<le> pr \<longrightarrow> vp \<le> v ! (?t ! x)"
    proof (intro allI impI)
      fix x assume x: "?j \<le> x \<and> x \<le> pr"
      show "vp \<le> v ! (?t ! x)"
      proof (cases "x = ?j")
        case True
        with ij bounds i4 show ?thesis by (simp add: nth_INTP_SWAP)
      next
        case False
        with x ij have "?t ! x = t ! x" using bounds by (simp add: nth_INTP_SWAP)
        moreover have "vp \<le> v ! (t ! x)"
        proof (cases "p_j \<le> x")
          case True
          with x hi show ?thesis by simp
        next
          case p: False
          with x False have "?j < x" "x \<le> p_j - 1" by arith+
          from j3 [OF this] show ?thesis by simp
        qed
        ultimately show ?thesis by simp
      qed
    qed
    from "1.IH" [OF refl refl False \<open>pl \<le> ?i\<close> ij \<open>?j < pr\<close> _ lo' hi' rec] "1.prems"(4)
    have IH: "?i < k \<and> k < pr \<and> permutes_between ?t t' (Suc ?i) (?j - 1)
       \<and> (\<forall>x. pl \<le> x \<and> x < k \<longrightarrow> v ! (t' ! x) \<le> vp)
       \<and> (\<forall>x. k \<le> x \<and> x \<le> pr \<longrightarrow> vp \<le> v ! (t' ! x))"
      by simp
    have "permutes_between t ?t (Suc p_i) (p_j - 1)"
      using i1 j2 ij "1.prems" by (intro permutes_between_swap) simp_all
    moreover from IH have "permutes_between ?t t' (Suc p_i) (p_j - 1)"
      using i1 j2 by (auto elim!: permutes_between_mono)
    ultimately have "permutes_between t t' (Suc p_i) (p_j - 1)"
      by (rule permutes_between_trans)
    with IH i1 show ?thesis by auto
  qed
qed

lemma nth_INTP_SWAP_other: "x \<noteq> i \<Longrightarrow> x \<noteq> j \<Longrightarrow> INTP_SWAP t i j ! x = t ! x"
  by (simp add: INTP_SWAP_def)

lemma nth_INTP_SWAP_snd: "j < length t \<Longrightarrow> INTP_SWAP t i j ! j = t ! i"
  by (simp add: INTP_SWAP_def)

lemma nth_INTP_SWAP_fst: "i < length t \<Longrightarrow> INTP_SWAP t i j ! i = t ! j"
  by (cases "i = j") (simp_all add: INTP_SWAP_def)

lemma median_of_3_spec:
  assumes "pl < pm" "pm < pr" "pr < length t"
  shows "permutes_between t (median_of_3 v t pl pm pr) pl pr
       \<and> v ! (median_of_3 v t pl pm pr ! pl) \<le> v ! (median_of_3 v t pl pm pr ! pm)
       \<and> v ! (median_of_3 v t pl pm pr ! pm) \<le> v ! (median_of_3 v t pl pm pr ! pr)"
proof -
  let ?t1 = "if v ! (t ! pm) < v ! (t ! pl) then INTP_SWAP t pm pl else t"
  let ?t2 = "if v ! (?t1 ! pr) < v ! (?t1 ! pm) then INTP_SWAP ?t1 pr pm else ?t1"
  let ?t3 = "if v ! (?t2 ! pm) < v ! (?t2 ! pl) then INTP_SWAP ?t2 pm pl else ?t2"
  have m: "median_of_3 v t pl pm pr = ?t3"
    by (simp add: median_of_3_def Let_def)
  have l1: "length ?t1 = length t" by simp
  have l2: "length ?t2 = length t" by simp
  have p1: "permutes_between t ?t1 pl pr"
    using assms by (auto intro!: permutes_between_swap simp add: permutes_between_refl)
  have p2: "permutes_between ?t1 ?t2 pl pr"
    using assms l1 by (auto intro!: permutes_between_swap simp add: permutes_between_refl)
  have p3: "permutes_between ?t2 ?t3 pl pr"
    using assms l2 by (auto intro!: permutes_between_swap simp add: permutes_between_refl
        simp del: length_INTP_SWAP)
  have perm: "permutes_between t ?t3 pl pr"
    using p1 p2 p3 by (blast intro: permutes_between_trans)
  have a: "v ! (?t1 ! pl) \<le> v ! (?t1 ! pm)"
    using assms by (auto simp add: nth_INTP_SWAP)
  have b: "v ! (?t2 ! pm) \<le> v ! (?t2 ! pr) \<and> v ! (?t2 ! pl) \<le> v ! (?t2 ! pr)"
    using assms a l1 by (auto simp add: nth_INTP_SWAP)
  have c: "v ! (?t3 ! pl) \<le> v ! (?t3 ! pm) \<and> v ! (?t3 ! pm) \<le> v ! (?t3 ! pr)"
    using assms b l2 by (auto simp add: nth_INTP_SWAP simp del: length_INTP_SWAP)
  from perm c show ?thesis
    unfolding m by blast
qed

lemma quicksort_partition_spec:
  assumes "16 < pr - pl" "pr < length t" "quicksort_partition v t pl pr = (t', k)"
  shows "pl < k \<and> k < pr \<and> permutes_between t t' pl pr
       \<and> (\<forall>x. pl \<le> x \<and> x < k \<longrightarrow> v ! (t' ! x) \<le> v ! (t' ! k))
       \<and> (\<forall>x. k < x \<and> x \<le> pr \<longrightarrow> v ! (t' ! k) \<le> v ! (t' ! x))"
proof -
  let ?pm = "pl + (pr - pl) div 2"
  let ?t1 = "median_of_3 v t pl ?pm pr"
  let ?vp = "v ! (?t1 ! ?pm)"
  let ?t2 = "INTP_SWAP ?t1 ?pm (pr - 1)"
  from assms(1) have pm: "pl < ?pm" "?pm < pr - 1" "?pm < pr" by auto
  from median_of_3_spec [OF pm(1) pm(3) assms(2), of v]
  have p1: "permutes_between t ?t1 pl pr" and m1: "v ! (?t1 ! pl) \<le> ?vp" and m2: "?vp \<le> v ! (?t1 ! pr)"
    by blast+
  from p1 have l1: "length ?t1 = length t" by (simp add: permutes_between_def)
  have p2: "permutes_between ?t1 ?t2 pl pr"
    using pm assms(1,2) l1 by (intro permutes_between_swap) simp_all
  obtain t3 k' where loop: "partition_loop v ?t2 ?vp pl pr pl (pr - 1) = (t3, k')"
    by (cases "partition_loop v ?t2 ?vp pl pr pl (pr - 1)")
  with assms(3) have res: "k = k'" "t' = INTP_SWAP t3 k' (pr - 1)"
    by (auto simp add: quicksort_partition_def Let_def)
  have lo: "\<forall>x. pl \<le> x \<and> x \<le> pl \<longrightarrow> v ! (?t2 ! x) \<le> ?vp"
    using pm m1 assms(2) l1 by (auto simp add: nth_INTP_SWAP)
  have hi: "\<forall>x. pr - 1 \<le> x \<and> x \<le> pr \<longrightarrow> ?vp \<le> v ! (?t2 ! x)"
  proof (intro allI impI)
    fix x assume "pr - 1 \<le> x \<and> x \<le> pr"
    then have "x = pr - 1 \<or> x = pr" by arith
    then show "?vp \<le> v ! (?t2 ! x)"
      using pm m2 assms(1,2) l1 by (auto simp add: nth_INTP_SWAP)
  qed
  from assms(1,2) l1 have "pl \<le> pl" "pl < pr - 1" "pr - 1 < pr" "pr < length ?t2" by simp_all
  from partition_loop_spec [OF this lo hi loop]
  have k: "pl < k'" "k' < pr" and p3: "permutes_between ?t2 t3 (Suc pl) (pr - 1 - 1)"
    and left: "\<And>x. pl \<le> x \<Longrightarrow> x < k' \<Longrightarrow> v ! (t3 ! x) \<le> ?vp"
    and right: "\<And>x. k' \<le> x \<Longrightarrow> x \<le> pr \<Longrightarrow> ?vp \<le> v ! (t3 ! x)"
    by blast+
  from p3 have l3: "length t3 = length t" using l1 by (simp add: permutes_between_def)
  from p3 have "\<And>i. i < length ?t2 \<Longrightarrow> i < Suc pl \<or> pr - 1 - 1 < i \<Longrightarrow> t3 ! i = ?t2 ! i"
    by (simp add: permutes_between_def)
  moreover from assms(1,2) l1 have "pr - 1 < length ?t2" "pr - 1 - 1 < pr - 1"
    by simp_all
  ultimately have "t3 ! (pr - 1) = ?t2 ! (pr - 1)"
    by blast
  also have "\<dots> = ?t1 ! ?pm"
    using pm assms(2) l1 by (simp add: nth_INTP_SWAP)
  finally have pivot: "v ! (t3 ! (pr - 1)) = ?vp" by simp
  have p4: "permutes_between t3 t' pl pr"
    unfolding res using k assms(2) l3 by (intro permutes_between_swap) simp_all
  have "permutes_between ?t2 t3 pl pr"
    using p3 by (rule permutes_between_mono) simp_all
  with p1 p2 p4 have perm: "permutes_between t t' pl pr"
    by (blast intro: permutes_between_trans)
  have kb: "k' < length t3" "pr - 1 < length t3"
    using k assms(2) l3 by simp_all
  have at_k: "v ! (t' ! k) = ?vp"
    unfolding res using kb(1) pivot by (simp only: nth_INTP_SWAP_fst)
  have L: "v ! (t' ! x) \<le> ?vp" if "pl \<le> x" "x < k" for x
  proof -
    from that k res have "x \<noteq> k'" "x \<noteq> pr - 1" by simp_all
    then have "t' ! x = t3 ! x"
      unfolding res by (rule nth_INTP_SWAP_other)
    with left [of x] that res show ?thesis by simp
  qed
  have R: "?vp \<le> v ! (t' ! x)" if "k < x" "x \<le> pr" for x
  proof (cases "x = pr - 1")
    case True
    then have "t' ! x = t3 ! k'"
      unfolding res using kb(2) by (simp only: nth_INTP_SWAP_snd)
    with right [of k'] k show ?thesis by simp
  next
    case False
    moreover from that res have "x \<noteq> k'" by simp
    ultimately have "t' ! x = t3 ! x"
      unfolding res by (intro nth_INTP_SWAP_other)
    with right [of x] that res show ?thesis by simp
  qed
  from k res perm L R at_k show ?thesis by simp
qed

text \<open>The insertion sort of a partition.\<close>

lemma insert_back_spec:
  assumes "pl \<le> p" "p \<le> q" "q < length t"
    and "\<forall>i j. pl \<le> i \<and> i < j \<and> j < p \<longrightarrow> v ! (t ! i) \<le> v ! (t ! j)"
    and "\<forall>i j. p < i \<and> i < j \<and> j \<le> q \<longrightarrow> v ! (t ! i) \<le> v ! (t ! j)"
    and "\<forall>x. p < x \<and> x \<le> q \<longrightarrow> v ! vi < v ! (t ! x)"
    and "\<forall>x y. pl \<le> x \<and> x < p \<and> p < y \<and> y \<le> q \<longrightarrow> v ! (t ! x) \<le> v ! (t ! y)"
  shows "length (insert_back v t vi pl p) = length t
       \<and> mset (insert_back v t vi pl p) = mset (t[p := vi])
       \<and> (\<forall>x. x < pl \<or> p < x \<longrightarrow> insert_back v t vi pl p ! x = t ! x)
       \<and> sorted_between v (insert_back v t vi pl p) pl q"
  using assms
proof (induction v t vi pl p rule: insert_back.induct)
  case (1 v t vi pl p)
  note left = "1.prems"(4) [rule_format]
  note right = "1.prems"(5) [rule_format]
  note above = "1.prems"(6) [rule_format]
  note cross = "1.prems"(7) [rule_format]
  show ?case
  proof (cases "pl < p \<and> v ! vi < v ! (t ! (p - 1))")
    case True
    let ?t = "t[p := t ! (p - 1)]"
    from True have eq: "insert_back v t vi pl p = insert_back v ?t vi pl (p - 1)"
      by (subst insert_back.simps) simp
    from True "1.prems" have p: "p - 1 < p" "pl \<le> p - 1" "p - 1 \<le> q" "p < length t" "q < length ?t"
      by auto
    have nth: "?t ! x = (if x = p then t ! (p - 1) else t ! x)" for x
      using p by (simp add: nth_list_update)
    have left': "\<forall>i j. pl \<le> i \<and> i < j \<and> j < p - 1 \<longrightarrow> v ! (?t ! i) \<le> v ! (?t ! j)"
      using left by (auto simp add: nth simp del: One_nat_def)
    have right': "\<forall>i j. p - 1 < i \<and> i < j \<and> j \<le> q \<longrightarrow> v ! (?t ! i) \<le> v ! (?t ! j)"
    proof (intro allI impI)
      fix i j assume ij: "p - 1 < i \<and> i < j \<and> j \<le> q"
      show "v ! (?t ! i) \<le> v ! (?t ! j)"
      proof (cases "i = p")
        case True
        with ij p cross [of "p - 1" j] show ?thesis by (simp add: nth del: One_nat_def)
      next
        case False
        with ij have "p < i" by arith
        with ij right [of i j] show ?thesis by (simp add: nth del: One_nat_def)
      qed
    qed
    have above': "\<forall>x. p - 1 < x \<and> x \<le> q \<longrightarrow> v ! vi < v ! (?t ! x)"
    proof (intro allI impI)
      fix x assume x: "p - 1 < x \<and> x \<le> q"
      show "v ! vi < v ! (?t ! x)"
      proof (cases "x = p")
        case True
        with \<open>pl < p \<and> v ! vi < v ! (t ! (p - 1))\<close> show ?thesis by (simp add: nth del: One_nat_def)
      next
        case False
        with x have "p < x" by arith
        with x above [of x] show ?thesis by (simp add: nth del: One_nat_def)
      qed
    qed
    have cross': "\<forall>x y. pl \<le> x \<and> x < p - 1 \<and> p - 1 < y \<and> y \<le> q \<longrightarrow> v ! (?t ! x) \<le> v ! (?t ! y)"
    proof (intro allI impI)
      fix x y assume xy: "pl \<le> x \<and> x < p - 1 \<and> p - 1 < y \<and> y \<le> q"
      show "v ! (?t ! x) \<le> v ! (?t ! y)"
      proof (cases "y = p")
        case True
        with xy left [of x "p - 1"] show ?thesis by (simp add: nth del: One_nat_def)
      next
        case False
        with xy have "p < y" "x < p" by arith+
        with xy cross [of x y] show ?thesis by (simp add: nth del: One_nat_def)
      qed
    qed
    from "1.IH" [OF True p(2) p(3) p(5) left' right' above' cross']
    have IH: "length (insert_back v ?t vi pl (p - 1)) = length ?t"
      "mset (insert_back v ?t vi pl (p - 1)) = mset (?t[p - 1 := vi])"
      "\<And>x. x < pl \<or> p - 1 < x \<Longrightarrow> insert_back v ?t vi pl (p - 1) ! x = ?t ! x"
      "sorted_between v (insert_back v ?t vi pl (p - 1)) pl q"
      by blast+
    have m: "mset (?t[p - 1 := vi]) = mset (t[p := vi])"
      using p True by (simp add: mset_update nth_list_update)
    have out: "insert_back v ?t vi pl (p - 1) ! x = t ! x" if "x < pl \<or> p < x" for x
    proof -
      from that p have "x < pl \<or> p - 1 < x" "x \<noteq> p" by auto
      with IH(3) [of x] show ?thesis by (simp add: nth del: One_nat_def)
    qed
    from IH(1,4) m IH(2) out show ?thesis
      unfolding eq by simp
  next
    case False
    then have eq: "insert_back v t vi pl p = t[p := vi]"
      by (subst insert_back.simps) auto
    from "1.prems" have pb: "p < length t" by simp
    have nth: "t[p := vi] ! x = (if x = p then vi else t ! x)" for x
      using pb by (simp add: nth_list_update)
    have below: "v ! (t ! i) \<le> v ! vi" if "pl \<le> i" "i < p" for i
    proof -
      from that False have "\<not> v ! vi < v ! (t ! (p - 1))" by auto
      moreover have "v ! (t ! i) \<le> v ! (t ! (p - 1))"
      proof (cases "i = p - 1")
        case True
        then show ?thesis by simp
      next
        case False
        with that left [of i "p - 1"] show ?thesis by simp
      qed
      ultimately show ?thesis by simp
    qed
    have "sorted_between v (t[p := vi]) pl q"
      unfolding sorted_between_def
    proof (intro allI impI)
      fix i j assume ij: "pl \<le> i \<and> i < j \<and> j \<le> q"
      consider "j < p" | "j = p" | "i = p" | "i < p" "p < j" | "p < i"
        using ij by arith
      then show "v ! (t[p := vi] ! i) \<le> v ! (t[p := vi] ! j)"
      proof cases
        case 1
        with ij left [of i j] show ?thesis by (simp add: nth del: One_nat_def)
      next
        case 2
        with ij below [of i] show ?thesis by (simp add: nth del: One_nat_def)
      next
        case 3
        with ij above [of j] show ?thesis by (simp add: nth del: One_nat_def)
      next
        case 4
        with ij cross [of i j] show ?thesis by (simp add: nth del: One_nat_def)
      next
        case 5
        with ij right [of i j] show ?thesis by (simp add: nth del: One_nat_def)
      qed
    qed
    with "1.prems"(1) show ?thesis
      unfolding eq by (auto simp add: nth)
  qed
qed

lemma insertion_sort_spec:
  assumes "pl \<le> pr" "pr < length t"
  shows "permutes_between t (insertion_sort v t pl pr) pl pr
       \<and> sorted_between v (insertion_sort v t pl pr) pl pr"
  using assms
proof (induction pr)
  case 0
  then show ?case
    by (simp add: insertion_sort_def permutes_between_refl sorted_between_def)
next
  case (Suc pr)
  show ?case
  proof (cases "pl = Suc pr")
    case True
    then show ?thesis
      by (auto simp add: insertion_sort_def permutes_between_refl sorted_between_def)
  next
    case False
    with Suc.prems have le: "pl \<le> pr" "pr < length t" by simp_all
    let ?t = "insertion_sort v t pl pr"
    from Suc.IH [OF le] have perm: "permutes_between t ?t pl pr" and srt: "sorted_between v ?t pl pr"
      by blast+
    from perm have len: "length ?t = length t" by (simp add: permutes_between_def)
    have step: "insertion_sort v t pl (Suc pr) = insert_back v ?t (?t ! Suc pr) pl (Suc pr)"
      using le by (simp add: insertion_sort_def)
    have "length (insert_back v ?t (?t ! Suc pr) pl (Suc pr)) = length ?t
       \<and> mset (insert_back v ?t (?t ! Suc pr) pl (Suc pr)) = mset (?t[Suc pr := ?t ! Suc pr])
       \<and> (\<forall>x. x < pl \<or> Suc pr < x \<longrightarrow> insert_back v ?t (?t ! Suc pr) pl (Suc pr) ! x = ?t ! x)
       \<and> sorted_between v (insert_back v ?t (?t ! Suc pr) pl (Suc pr)) pl (Suc pr)"
      using Suc.prems len srt
      by (intro insert_back_spec) (auto simp add: sorted_between_def)
    then have "permutes_between ?t (insertion_sort v t pl (Suc pr)) pl (Suc pr)"
      and s: "sorted_between v (insertion_sort v t pl (Suc pr)) pl (Suc pr)"
      unfolding step by (auto simp add: permutes_between_def)
    moreover from perm have "permutes_between t ?t pl (Suc pr)"
      by (rule permutes_between_mono) simp_all
    ultimately show ?thesis
      by (blast intro: permutes_between_trans)
  qed
qed

text \<open>
  The heap sort of a partition: sifting a value down from a hole restores the heap, the
  first loop builds the heap, and the second moves its root behind it, step by step.
\<close>

lemma sift_down_spec:
  assumes "pl + n \<le> length t" "i < n" "l \<le> i"
    and "\<forall>p c. l \<le> p \<and> p \<noteq> i \<and> (c = 2 * p + 1 \<or> c = 2 * p + 2) \<and> c < n
           \<longrightarrow> v ! (t ! (pl + c)) \<le> v ! (t ! (pl + p))"
    and "\<forall>c. 0 < i \<and> l \<le> (i - 1) div 2 \<and> (c = 2 * i + 1 \<or> c = 2 * i + 2) \<and> c < n
           \<longrightarrow> v ! (t ! (pl + c)) \<le> v ! (t ! (pl + (i - 1) div 2))"
    and "0 < i \<and> l \<le> (i - 1) div 2 \<longrightarrow> v ! tmp \<le> v ! (t ! (pl + (i - 1) div 2))"
  shows "length (sift_down v t pl tmp i n) = length t
       \<and> mset (sift_down v t pl tmp i n) = mset (t[pl + i := tmp])
       \<and> (\<forall>x. x < pl + i \<or> pl + n \<le> x \<longrightarrow> sift_down v t pl tmp i n ! x = t ! x)
       \<and> heap_from v (sift_down v t pl tmp i n) pl l n"
  using assms
proof (induction v t pl tmp i n rule: sift_down.induct)
  case (1 v t pl tmp i n)
  note inv1 = "1.prems"(4) [rule_format]
  note inv2 = "1.prems"(5) [rule_format]
  note inv3 = "1.prems"(6) [rule_format]
  let ?K = "\<lambda>t h. v ! (t ! (pl + h))"
  let ?lc = "2 * i + 1"
  define j where "j = (if ?lc + 1 < n \<and> v ! (t ! (pl + ?lc)) < v ! (t ! (pl + ?lc + 1)) then ?lc + 1 else ?lc)"
  from "1.prems" have ib: "pl + i < length t" by simp
  have fin: "length (t[pl + i := tmp]) = length t
       \<and> mset (t[pl + i := tmp]) = mset (t[pl + i := tmp])
       \<and> (\<forall>x. x < pl + i \<or> pl + n \<le> x \<longrightarrow> t[pl + i := tmp] ! x = t ! x)
       \<and> heap_from v (t[pl + i := tmp]) pl l n"
    if stop: "\<And>c. (c = 2 * i + 1 \<or> c = 2 * i + 2) \<Longrightarrow> c < n \<Longrightarrow> v ! (t ! (pl + c)) \<le> v ! tmp"
  proof -
    let ?u = "t[pl + i := tmp]"
    have nth: "?u ! (pl + h) = (if h = i then tmp else t ! (pl + h))" for h
      using ib by (simp add: nth_list_update)
    have "heap_from v ?u pl l n"
      unfolding heap_from_def
    proof (intro allI impI)
      fix p c assume pc: "l \<le> p \<and> (c = 2 * p + 1 \<or> c = 2 * p + 2) \<and> c < n"
      show "v ! (?u ! (pl + c)) \<le> v ! (?u ! (pl + p))"
      proof (cases "p = i")
        case True
        with pc have "c \<noteq> i" by auto
        with True pc stop [of c] show ?thesis by (auto simp add: nth)
      next
        case False
        show ?thesis
        proof (cases "c = i")
          case True
          with pc have "0 < i" "(i - 1) div 2 = p" by auto
          with True False pc inv3 show ?thesis by (auto simp add: nth)
        next
          case c: False
          with False pc inv1 [of p c] show ?thesis by (simp add: nth)
        qed
      qed
    qed
    with "1.prems"(1,2) show ?thesis by auto
  qed
  show ?case
  proof (cases "?lc < n")
    case no_child: False
    then have eq: "sift_down v t pl tmp i n = t[pl + i := tmp]"
      by (subst sift_down.simps) (simp add: Let_def)
    from no_child show ?thesis
      unfolding eq by (intro fin) auto
  next
    case child: True
    have jn: "j < n" "i < j" "j = 2 * i + 1 \<or> j = 2 * i + 2"
      using child by (auto simp add: j_def)
    have larger: "v ! (t ! (pl + c)) \<le> v ! (t ! (pl + j))"
      if "c = 2 * i + 1 \<or> c = 2 * i + 2" "c < n" for c
      using that child by (auto simp add: j_def add.assoc)
    show ?thesis
    proof (cases "v ! tmp < v ! (t ! (pl + j))")
      case False
      then have eq: "sift_down v t pl tmp i n = t[pl + i := tmp]"
        using child by (subst sift_down.simps) (auto simp add: Let_def j_def split: if_splits)
      have "v ! (t ! (pl + c)) \<le> v ! tmp" if "c = 2 * i + 1 \<or> c = 2 * i + 2" "c < n" for c
        using larger [OF that] False by simp
      then show ?thesis
        unfolding eq by (intro fin)
    next
      case True
      let ?t = "t[pl + i := t ! (pl + j)]"
      from True child have eq: "sift_down v t pl tmp i n = sift_down v ?t pl tmp j n"
        by (subst sift_down.simps) (auto simp add: Let_def j_def split: if_splits)
      have nth: "?t ! (pl + h) = (if h = i then t ! (pl + j) else t ! (pl + h))" for h
        using ib by (simp add: nth_list_update)
      have inv1': "\<forall>p c. l \<le> p \<and> p \<noteq> j \<and> (c = 2 * p + 1 \<or> c = 2 * p + 2) \<and> c < n
           \<longrightarrow> v ! (?t ! (pl + c)) \<le> v ! (?t ! (pl + p))"
      proof (intro allI impI)
        fix p c assume pc: "l \<le> p \<and> p \<noteq> j \<and> (c = 2 * p + 1 \<or> c = 2 * p + 2) \<and> c < n"
        show "v ! (?t ! (pl + c)) \<le> v ! (?t ! (pl + p))"
        proof (cases "p = i")
          case True
          with pc have "c \<noteq> i" by auto
          with True pc larger [of c] show ?thesis by (simp add: nth)
        next
          case False
          show ?thesis
          proof (cases "c = i")
            case True
            with pc have "0 < i" "(i - 1) div 2 = p" by auto
            with True False pc jn inv2 [of j] show ?thesis by (simp add: nth)
          next
            case c: False
            with False pc inv1 [of p c] show ?thesis by (simp add: nth)
          qed
        qed
      qed
      have par: "(j - 1) div 2 = i" using jn by auto
      have inv2': "\<forall>c. 0 < j \<and> l \<le> (j - 1) div 2 \<and> (c = 2 * j + 1 \<or> c = 2 * j + 2) \<and> c < n
           \<longrightarrow> v ! (?t ! (pl + c)) \<le> v ! (?t ! (pl + (j - 1) div 2))"
      proof (intro allI impI)
        fix c assume c: "0 < j \<and> l \<le> (j - 1) div 2 \<and> (c = 2 * j + 1 \<or> c = 2 * j + 2) \<and> c < n"
        with jn have "c \<noteq> i" "l \<le> j" "j \<noteq> i" using "1.prems"(3) by auto
        with c inv1 [of j c] show "v ! (?t ! (pl + c)) \<le> v ! (?t ! (pl + (j - 1) div 2))"
          unfolding par by (simp add: nth)
      qed
      have inv3': "0 < j \<and> l \<le> (j - 1) div 2 \<longrightarrow> v ! tmp \<le> v ! (?t ! (pl + (j - 1) div 2))"
        unfolding par using True by (auto simp add: nth)
      from "1.prems"(1,3) jn have pre: "pl + n \<le> length ?t" "l \<le> j" by simp_all
      from "1.IH" [OF refl child j_def True pre(1) jn(1) pre(2) inv1' inv2' inv3']
      have IH: "length (sift_down v ?t pl tmp j n) = length ?t"
        "mset (sift_down v ?t pl tmp j n) = mset (?t[pl + j := tmp])"
        "\<And>x. x < pl + j \<or> pl + n \<le> x \<Longrightarrow> sift_down v ?t pl tmp j n ! x = ?t ! x"
        "heap_from v (sift_down v ?t pl tmp j n) pl l n"
        by blast+
      have jb: "pl + j < length t" using jn "1.prems"(1) by simp
      have m: "mset (?t[pl + j := tmp]) = mset (t[pl + i := tmp])"
        using ib jb jn by (simp add: mset_update nth_list_update)
      have out: "sift_down v ?t pl tmp j n ! x = t ! x" if "x < pl + i \<or> pl + n \<le> x" for x
      proof -
        from that jn "1.prems"(2) have "x < pl + j \<or> pl + n \<le> x" "x \<noteq> pl + i" by auto
        with IH(3) [of x] show ?thesis by simp
      qed
      from IH(1,2,4) m out show ?thesis
        unfolding eq by simp
    qed
  qed
qed

lemma heap_root_max:
  assumes "heap_from v t pl 0 m" "h < m"
  shows "v ! (t ! (pl + h)) \<le> v ! (t ! pl)"
  using assms(2)
proof (induction h rule: less_induct)
  case (less h)
  show ?case
  proof (cases "h = 0")
    case True
    then show ?thesis by simp
  next
    case False
    let ?p = "(h - 1) div 2"
    from False have p: "?p < h" "h = 2 * ?p + 1 \<or> h = 2 * ?p + 2" by auto
    with less.prems assms(1) have "v ! (t ! (pl + h)) \<le> v ! (t ! (pl + ?p))"
      unfolding heap_from_def by blast
    moreover from p less.prems have "v ! (t ! (pl + ?p)) \<le> v ! (t ! pl)"
      by (intro less.IH) simp_all
    ultimately show ?thesis by simp
  qed
qed

lemma build_heap_spec:
  assumes "pl + n \<le> length t" "m \<le> n" "heap_from v t pl m n"
  shows "permutes_between t
           (foldl (\<lambda>t l. sift_down v t pl (t ! (pl + l)) l n) t (rev [0 ..< m])) pl (pl + n - 1)
       \<and> heap_from v
           (foldl (\<lambda>t l. sift_down v t pl (t ! (pl + l)) l n) t (rev [0 ..< m])) pl 0 n"
  using assms
proof (induction m arbitrary: t)
  case 0
  then show ?case by (simp add: permutes_between_refl)
next
  case (Suc m)
  let ?t = "sift_down v t pl (t ! (pl + m)) m n"
  from Suc.prems have mn: "m < n" by simp
  have inv1: "\<forall>p c. m \<le> p \<and> p \<noteq> m \<and> (c = 2 * p + 1 \<or> c = 2 * p + 2) \<and> c < n
           \<longrightarrow> v ! (t ! (pl + c)) \<le> v ! (t ! (pl + p))"
    using Suc.prems(3) unfolding heap_from_def by auto
  have inv2: "\<forall>c. 0 < m \<and> m \<le> (m - 1) div 2 \<and> (c = 2 * m + 1 \<or> c = 2 * m + 2) \<and> c < n
           \<longrightarrow> v ! (t ! (pl + c)) \<le> v ! (t ! (pl + (m - 1) div 2))"
    by auto
  have inv3: "0 < m \<and> m \<le> (m - 1) div 2 \<longrightarrow> v ! (t ! (pl + m)) \<le> v ! (t ! (pl + (m - 1) div 2))"
    by auto
  from sift_down_spec [OF Suc.prems(1) mn le_refl inv1 inv2 inv3]
  have s: "length ?t = length t" "mset ?t = mset (t[pl + m := t ! (pl + m)])"
    "\<And>x. x < pl + m \<or> pl + n \<le> x \<Longrightarrow> ?t ! x = t ! x" "heap_from v ?t pl m n"
    by blast+
  have "?t ! x = t ! x" if "x < pl \<or> pl + n - 1 < x" for x
  proof -
    from that mn have "x < pl + m \<or> pl + n \<le> x" by arith
    then show ?thesis by (rule s(3))
  qed
  with s(1,2) have p1: "permutes_between t ?t pl (pl + n - 1)"
    by (simp add: permutes_between_def)
  from Suc.prems s have "pl + n \<le> length ?t" "m \<le> n" by simp_all
  from Suc.IH [OF this s(4)] p1 show ?case
    by (auto intro: permutes_between_trans)
qed

lemma extract_spec:
  assumes "pl + n \<le> length t" "0 < m" "m \<le> n" "heap_from v t pl 0 m"
    and "sorted_between v t (pl + m) (pl + n - 1)"
    and "\<forall>h x. h < m \<and> m \<le> x \<and> x < n \<longrightarrow> v ! (t ! (pl + h)) \<le> v ! (t ! (pl + x))"
  shows "permutes_between t
           (foldl (\<lambda>t n. sift_down v (t[pl + n - 1 := t ! pl]) pl (t ! (pl + n - 1)) 0 (n - 1))
              t (rev [2 ..< Suc m])) pl (pl + n - 1)
       \<and> sorted_between v
           (foldl (\<lambda>t n. sift_down v (t[pl + n - 1 := t ! pl]) pl (t ! (pl + n - 1)) 0 (n - 1))
              t (rev [2 ..< Suc m])) pl (pl + n - 1)"
  using assms
proof (induction m arbitrary: t)
  case 0
  then show ?case by simp
next
  case (Suc m)
  note cross = Suc.prems(6) [rule_format]
  show ?case
  proof (cases "m = 0")
    case True
    have "sorted_between v t pl (pl + n - 1)"
      unfolding sorted_between_def
    proof (intro allI impI)
      fix i j assume ij: "pl \<le> i \<and> i < j \<and> j \<le> pl + n - 1"
      show "v ! (t ! i) \<le> v ! (t ! j)"
      proof (cases "i = pl")
        case i: True
        from ij i True Suc.prems(3) have "(0::nat) < Suc m" "Suc m \<le> j - pl" "j - pl < n" "j = pl + (j - pl)"
          by simp_all arith+
        with cross [of 0 "j - pl"] i show ?thesis by simp
      next
        case False
        with ij True Suc.prems(5) show ?thesis
          unfolding sorted_between_def by simp
      qed
    qed
    with True show ?thesis by (simp add: permutes_between_refl)
  next
    case False
    let ?M = "Suc m"
    let ?t0 = "t[pl + ?M - 1 := t ! pl]"
    let ?tmp = "t ! (pl + ?M - 1)"
    let ?t1 = "sift_down v ?t0 pl ?tmp 0 (?M - 1)"
    from False Suc.prems have b: "0 < m" "pl + m < length t" "pl < length t" "pl + (?M - 1) \<le> length ?t0"
      by simp_all
    have nth0: "?t0 ! x = (if x = pl + m then t ! pl else t ! x)" for x
      using b by (simp add: nth_list_update)
    have inv1: "\<forall>p c. 0 \<le> p \<and> p \<noteq> 0 \<and> (c = 2 * p + 1 \<or> c = 2 * p + 2) \<and> c < ?M - 1
           \<longrightarrow> v ! (?t0 ! (pl + c)) \<le> v ! (?t0 ! (pl + p))"
    proof (intro allI impI)
      fix p c assume pc: "0 \<le> p \<and> p \<noteq> 0 \<and> (c = 2 * p + 1 \<or> c = 2 * p + 2) \<and> c < ?M - 1"
      then have "c < ?M" "p < m" "c < m" by auto
      with pc Suc.prems(4) show "v ! (?t0 ! (pl + c)) \<le> v ! (?t0 ! (pl + p))"
        unfolding heap_from_def by (simp add: nth0)
    qed
    have inv2: "\<forall>c. 0 < (0::nat) \<and> (0::nat) \<le> (0 - 1) div 2 \<and> (c = 2 * 0 + 1 \<or> c = 2 * 0 + 2) \<and> c < ?M - 1
           \<longrightarrow> v ! (?t0 ! (pl + c)) \<le> v ! (?t0 ! (pl + (0 - 1) div 2))"
      by simp
    have inv3: "0 < (0::nat) \<and> (0::nat) \<le> (0 - 1) div 2 \<longrightarrow> v ! ?tmp \<le> v ! (?t0 ! (pl + (0 - 1) div 2))"
      by simp
    from b have "0 < ?M - 1" by simp
    from sift_down_spec [OF b(4) this le_refl inv1 inv2 inv3]
    have s: "length ?t1 = length ?t0" "mset ?t1 = mset (?t0[pl + 0 := ?tmp])"
      "\<And>x. x < pl + 0 \<or> pl + (?M - 1) \<le> x \<Longrightarrow> ?t1 ! x = ?t0 ! x" "heap_from v ?t1 pl 0 (?M - 1)"
      by blast+
    have m1: "mset ?t1 = mset t"
      using s(2) b mset_swap [of pl t "pl + m"] by simp
    have out: "?t1 ! x = t ! x" if "x < pl \<or> pl + m < x" for x
    proof -
      from that have "x < pl + 0 \<or> pl + (?M - 1) \<le> x" "x \<noteq> pl + m" by auto
      with s(3) [of x] show ?thesis by (simp add: nth0)
    qed
    have last: "?t1 ! (pl + m) = t ! pl"
      using s(3) [of "pl + m"] b(2) by simp
    have p1: "permutes_between t ?t1 pl (pl + m)"
      using s(1) m1 out by (simp add: permutes_between_def)
    have heap: "heap_from v ?t1 pl 0 m"
      using s(4) by simp
    have all1: "v ! (?t1 ! (pl + h)) \<le> bound" if "h \<le> m" "\<And>h. h \<le> m \<Longrightarrow> v ! (t ! (pl + h)) \<le> bound"
      for h bound
    proof -
      have "v ! (?t1 ! (pl + h)) \<le> bound"
      proof (rule permutes_between_all [OF p1 b(2), where P = "\<lambda>idx. v ! idx \<le> bound"])
        fix x assume "pl \<le> x" "x \<le> pl + m"
        then have "x = pl + (x - pl)" "x - pl \<le> m" by simp_all
        with that(2) [of "x - pl"] show "v ! (t ! x) \<le> bound" by simp
      qed (use that in simp_all)
      then show ?thesis .
    qed
    have tail: "sorted_between v ?t1 (pl + m) (pl + n - 1)"
      unfolding sorted_between_def
    proof (intro allI impI)
      fix i j assume ij: "pl + m \<le> i \<and> i < j \<and> j \<le> pl + n - 1"
      show "v ! (?t1 ! i) \<le> v ! (?t1 ! j)"
      proof (cases "i = pl + m")
        case True
        with ij have "j = pl + (j - pl)" "Suc m \<le> j - pl" "j - pl < n" using Suc.prems(3) by simp_all arith+
        with cross [of 0 "j - pl"] have "v ! (t ! pl) \<le> v ! (t ! j)" by simp
        with True ij last out [of j] show ?thesis by simp
      next
        case False
        with ij have "pl + Suc m \<le> i" by simp
        with ij Suc.prems(5) out [of i] out [of j] show ?thesis
          unfolding sorted_between_def by simp
      qed
    qed
    have cross': "\<forall>h x. h < m \<and> m \<le> x \<and> x < n \<longrightarrow> v ! (?t1 ! (pl + h)) \<le> v ! (?t1 ! (pl + x))"
    proof (intro allI impI)
      fix h x assume hx: "h < m \<and> m \<le> x \<and> x < n"
      show "v ! (?t1 ! (pl + h)) \<le> v ! (?t1 ! (pl + x))"
      proof (cases "x = m")
        case True
        have "v ! (?t1 ! (pl + h)) \<le> v ! (t ! pl)"
          using hx heap_root_max [OF Suc.prems(4)] by (intro all1) simp_all
        with True last show ?thesis by simp
      next
        case False
        with hx have x: "Suc m \<le> x" by simp
        have "v ! (?t1 ! (pl + h)) \<le> v ! (t ! (pl + x))"
          using hx x cross by (intro all1) simp_all
        with x out [of "pl + x"] show ?thesis by simp
      qed
    qed
    from Suc.prems s(1) b have pre: "pl + n \<le> length ?t1" "0 < m" "m \<le> n" by simp_all
    have step: "rev [2 ..< Suc (Suc m)] = Suc m # rev [2 ..< Suc m]"
      using b by simp
    from Suc.IH [OF pre heap tail cross']
    have IH: "permutes_between ?t1
           (foldl (\<lambda>t n. sift_down v (t[pl + n - 1 := t ! pl]) pl (t ! (pl + n - 1)) 0 (n - 1))
              ?t1 (rev [2 ..< Suc m])) pl (pl + n - 1)"
      "sorted_between v
           (foldl (\<lambda>t n. sift_down v (t[pl + n - 1 := t ! pl]) pl (t ! (pl + n - 1)) 0 (n - 1))
              ?t1 (rev [2 ..< Suc m])) pl (pl + n - 1)"
      by blast+
    from Suc.prems(3) have "pl \<le> pl" "pl + m \<le> pl + n - 1" by simp_all
    with p1 have "permutes_between t ?t1 pl (pl + n - 1)"
      by (rule permutes_between_mono)
    with IH show ?thesis
      unfolding step by (auto intro: permutes_between_trans)
  qed
qed

lemma aheapsort_spec:
  assumes "0 < n" "pl + n \<le> length t"
  shows "permutes_between t (aheapsort v t pl n) pl (pl + n - 1)
       \<and> sorted_between v (aheapsort v t pl n) pl (pl + n - 1)"
proof -
  let ?t = "foldl (\<lambda>t l. sift_down v t pl (t ! (pl + l)) l n) t (rev [0 ..< n div 2])"
  have "heap_from v t pl (n div 2) n"
    unfolding heap_from_def by auto
  from build_heap_spec [OF assms(2) _ this]
  have b: "permutes_between t ?t pl (pl + n - 1)" "heap_from v ?t pl 0 n"
    by simp_all
  then have len: "pl + n \<le> length ?t"
    using assms(2) by (simp add: permutes_between_def)
  have "sorted_between v ?t (pl + n) (pl + n - 1)"
    unfolding sorted_between_def using assms(1) by (intro allI impI) arith
  moreover have "\<forall>h x. h < n \<and> n \<le> x \<and> x < n \<longrightarrow> v ! (?t ! (pl + h)) \<le> v ! (?t ! (pl + x))"
    by auto
  ultimately show ?thesis
    using extract_spec [OF len assms(1) le_refl b(2)] b(1)
    by (auto simp add: aheapsort_def Let_def intro: permutes_between_trans)
qed

text \<open>
  The main loop: replacing a partition by its parts, or by nothing once it is sorted,
  keeps the positions outside the partitions in order; when the stack is empty, the array
  is sorted.
\<close>

lemma ordered_outside_replace:
  assumes apart: "ranges_apart (length t) ((pl, pr) # rs)"
    and old: "ordered_outside v t ((pl, pr) # rs)"
    and perm: "permutes_between t t' pl pr"
    and inner: "\<And>i j. pl \<le> i \<Longrightarrow> i < j \<Longrightarrow> j \<le> pr
                  \<Longrightarrow> \<forall>(l, r) \<in> set subs. \<not> (l \<le> i \<and> j \<le> r) \<Longrightarrow> v ! (t' ! i) \<le> v ! (t' ! j)"
  shows "ordered_outside v t' (subs @ rs)"
  unfolding ordered_outside_def
proof (intro allI impI)
  fix i j assume ij: "i < j \<and> j < length t' \<and> (\<forall>(l, r) \<in> set (subs @ rs). \<not> (l \<le> i \<and> j \<le> r))"
  from perm have len: "length t' = length t"
    and out: "\<And>x. x < length t \<Longrightarrow> x < pl \<or> pr < x \<Longrightarrow> t' ! x = t ! x"
    by (simp_all add: permutes_between_def)
  from apart have pr: "pl \<le> pr" "pr < length t"
    and away: "\<And>l r x. (l, r) \<in> set rs \<Longrightarrow> pl \<le> x \<Longrightarrow> x \<le> pr \<Longrightarrow> \<not> (l \<le> x \<and> x \<le> r)"
    by auto
  note old' = old [unfolded ordered_outside_def, rule_format]
  from ij have nsub: "\<forall>(l, r) \<in> set subs. \<not> (l \<le> i \<and> j \<le> r)"
    and nrs: "\<And>l r. (l, r) \<in> set rs \<Longrightarrow> \<not> (l \<le> i \<and> j \<le> r)"
    by auto
  consider (both) "pl \<le> i" "j \<le> pr" | (left) "pl \<le> i" "i \<le> pr" "pr < j"
    | (right) "i < pl" "pl \<le> j" "j \<le> pr" | (none) "i < pl \<or> pr < i" "j < pl \<or> pr < j"
    using ij by arith
  then show "v ! (t' ! i) \<le> v ! (t' ! j)"
  proof cases
    case both
    with ij nsub inner [of i j] show ?thesis by simp
  next
    case left
    have "v ! (t ! x) \<le> v ! (t ! j)" if x: "pl \<le> x" "x \<le> pr" for x
    proof (rule old')
      have "\<not> (l \<le> x \<and> j \<le> r)" if "(l, r) \<in> set rs" for l r
      proof
        assume "l \<le> x \<and> j \<le> r"
        with left x have "l \<le> x \<and> x \<le> r" by simp
        with away [OF that x] show False by simp
      qed
      with x left ij len
      show "x < j \<and> j < length t \<and> (\<forall>(l, r) \<in> set ((pl, pr) # rs). \<not> (l \<le> x \<and> j \<le> r))"
        by auto
    qed
    from permutes_between_all [OF perm pr(2), where P = "\<lambda>idx. v ! idx \<le> v ! (t ! j)", OF this left(1,2)]
    have "v ! (t' ! i) \<le> v ! (t ! j)" by simp
    with out [of j] left ij len show ?thesis by simp
  next
    case right
    have "v ! (t ! i) \<le> v ! (t ! x)" if x: "pl \<le> x" "x \<le> pr" for x
    proof (rule old')
      have "\<not> (l \<le> i \<and> x \<le> r)" if "(l, r) \<in> set rs" for l r
      proof
        assume "l \<le> i \<and> x \<le> r"
        with right x have "l \<le> x \<and> x \<le> r" by simp
        with away [OF that x] show False by simp
      qed
      with x right ij len pr
      show "i < x \<and> x < length t \<and> (\<forall>(l, r) \<in> set ((pl, pr) # rs). \<not> (l \<le> i \<and> x \<le> r))"
        by auto
    qed
    from permutes_between_all [OF perm pr(2), where P = "\<lambda>idx. v ! (t ! i) \<le> v ! idx", OF this right(2,3)]
    have "v ! (t ! i) \<le> v ! (t' ! j)" by simp
    with out [of i] right ij len pr show ?thesis by simp
  next
    case none
    have "v ! (t ! i) \<le> v ! (t ! j)"
    proof (rule old')
      from none ij len nrs
      show "i < j \<and> j < length t \<and> (\<forall>(l, r) \<in> set ((pl, pr) # rs). \<not> (l \<le> i \<and> j \<le> r))"
        by auto
    qed
    with out [of i] out [of j] none ij len show ?thesis by simp
  qed
qed

lemma aquicksort_loop_spec:
  assumes "ranges_apart (length t) ((pl, pr) # map (\<lambda>(l, r, d). (l, r)) stack)"
    and "ordered_outside v t ((pl, pr) # map (\<lambda>(l, r, d). (l, r)) stack)"
  shows "length (aquicksort_loop v t pl pr cdepth stack f) = length t
       \<and> mset (aquicksort_loop v t pl pr cdepth stack f) = mset t
       \<and> ordered_outside v (aquicksort_loop v t pl pr cdepth stack f) []"
  using assms
proof (induction v t pl pr cdepth stack f rule: aquicksort_loop.induct)
  case (1 v t pl pr cdepth stack f)
  let ?rs = "map (\<lambda>(l, r, d). (l, r)) stack"
  from "1.prems"(1) have pr: "pl \<le> pr" "pr < length t" and rs: "ranges_apart (length t) ?rs"
    and away: "\<forall>(l', r') \<in> set ?rs. pr < l' \<or> r' < pl"
    by simp_all
  show ?case
  proof (cases "(f \<or> 0 \<le> cdepth) \<and> 16 < pr - pl")
    case True
    obtain t1 k where part: "quicksort_partition v t pl pr = (t1, k)"
      by (cases "quicksort_partition v t pl pr")
    from True have big: "16 < pr - pl" by simp
    from quicksort_partition_spec [OF big pr(2) part]
    have k: "pl < k" "k < pr" and perm: "permutes_between t t1 pl pr"
      and left: "\<And>x. pl \<le> x \<Longrightarrow> x < k \<Longrightarrow> v ! (t1 ! x) \<le> v ! (t1 ! k)"
      and right: "\<And>x. k < x \<Longrightarrow> x \<le> pr \<Longrightarrow> v ! (t1 ! k) \<le> v ! (t1 ! x)"
      by blast+
    from perm have len: "length t1 = length t" and m: "mset t1 = mset t"
      by (simp_all add: permutes_between_def)
    have inner: "v ! (t1 ! i) \<le> v ! (t1 ! j)"
      if "pl \<le> i" "i < j" "j \<le> pr" "\<forall>(l, r) \<in> set [(pl, k - 1), (k + 1, pr)]. \<not> (l \<le> i \<and> j \<le> r)"
      for i j
    proof -
      from that k have ikj: "i \<le> k" "k \<le> j" by auto
      have "v ! (t1 ! i) \<le> v ! (t1 ! k)"
        using ikj that left [of i] by (cases "i = k") simp_all
      moreover have "v ! (t1 ! k) \<le> v ! (t1 ! j)"
        using ikj that right [of j] by (cases "j = k") simp_all
      ultimately show ?thesis by simp
    qed
    have oo: "ordered_outside v t1 ([(pl, k - 1), (k + 1, pr)] @ ?rs)"
    proof (rule ordered_outside_replace [OF "1.prems"(1,2) perm])
      fix i j
      assume "pl \<le> i" "i < j" "j \<le> pr"
        "\<forall>(l, r) \<in> set [(pl, k - 1), (k + 1, pr)]. \<not> (l \<le> i \<and> j \<le> r)"
      then show "v ! (t1 ! i) \<le> v ! (t1 ! j)" by (rule inner)
    qed
    have sub: "\<forall>(l', r') \<in> set ?rs. k - 1 < l' \<or> r' < pl" "\<forall>(l', r') \<in> set ?rs. pr < l' \<or> r' < k + 1"
      using away k by auto
    show ?thesis
    proof (cases "k - pl < pr - k")
      case small: True
      have eq: "aquicksort_loop v t pl pr cdepth stack f =
          aquicksort_loop v t1 pl (k - 1) (cdepth - 1) ((k + 1, pr, cdepth - 1) # stack) True"
        using True small part by (subst aquicksort_loop.simps) simp
      have ap: "ranges_apart (length t1) ((pl, k - 1) # map (\<lambda>(l, r, d). (l, r)) ((k + 1, pr, cdepth - 1) # stack))"
        using k pr rs sub len by auto
      have oo': "ordered_outside v t1 ((pl, k - 1) # map (\<lambda>(l, r, d). (l, r)) ((k + 1, pr, cdepth - 1) # stack))"
        using oo by simp
      from "1.IH"(1) [OF True part [symmetric] small ap oo'] len m show ?thesis
        unfolding eq by simp
    next
      case large: False
      have eq: "aquicksort_loop v t pl pr cdepth stack f =
          aquicksort_loop v t1 (k + 1) pr (cdepth - 1) ((pl, k - 1, cdepth - 1) # stack) True"
        using True large part by (subst aquicksort_loop.simps) simp
      have ap: "ranges_apart (length t1) ((k + 1, pr) # map (\<lambda>(l, r, d). (l, r)) ((pl, k - 1, cdepth - 1) # stack))"
        using k pr rs sub len by auto
      have "set ((k + 1, pr) # map (\<lambda>(l, r, d). (l, r)) ((pl, k - 1, cdepth - 1) # stack))
          = set ([(pl, k - 1), (k + 1, pr)] @ ?rs)"
        by auto
      with oo have oo': "ordered_outside v t1 ((k + 1, pr) # map (\<lambda>(l, r, d). (l, r)) ((pl, k - 1, cdepth - 1) # stack))"
        unfolding ordered_outside_def by simp
      from "1.IH"(2) [OF True part [symmetric] large ap oo'] len m show ?thesis
        unfolding eq by simp
    qed
  next
    case False
    let ?t1 = "if \<not> f \<and> cdepth < 0 then aheapsort v t pl (pr - pl + 1) else insertion_sort v t pl pr"
    have spec: "permutes_between t ?t1 pl pr \<and> sorted_between v ?t1 pl pr"
    proof (cases "\<not> f \<and> cdepth < 0")
      case True
      from pr have "0 < pr - pl + 1" "pl + (pr - pl + 1) \<le> length t" "pl + (pr - pl + 1) - 1 = pr"
        by simp_all
      with aheapsort_spec [of "pr - pl + 1" pl t v] True show ?thesis by simp
    next
      case False
      with insertion_sort_spec [OF pr, of v] show ?thesis by auto
    qed
    then have perm: "permutes_between t ?t1 pl pr" and srt: "sorted_between v ?t1 pl pr"
      by blast+
    from perm have len: "length ?t1 = length t" and m: "mset ?t1 = mset t"
      by (simp_all add: permutes_between_def)
    have inner: "v ! (?t1 ! i) \<le> v ! (?t1 ! j)"
      if "pl \<le> i" "i < j" "j \<le> pr" "\<forall>(l, r) \<in> set []. \<not> (l \<le> i \<and> j \<le> r)" for i j
      using srt that unfolding sorted_between_def by blast
    have "ordered_outside v ?t1 ([] @ ?rs)"
    proof (rule ordered_outside_replace [OF "1.prems"(1,2) perm])
      fix i j
      assume "pl \<le> i" "i < j" "j \<le> pr" "\<forall>(l, r) \<in> set []. \<not> (l \<le> i \<and> j \<le> r)"
      then show "v ! (?t1 ! i) \<le> v ! (?t1 ! j)" by (rule inner)
    qed
    then have oo: "ordered_outside v ?t1 ?rs"
      by simp
    show ?thesis
    proof (cases stack)
      case Nil
      with False have eq: "aquicksort_loop v t pl pr cdepth stack f = ?t1"
        by (subst aquicksort_loop.simps) (auto simp add: Let_def)
      from oo Nil len m show ?thesis
        unfolding eq by simp
    next
      case (Cons top rest)
      obtain l r d where top: "top = (l, r, d)" by (cases top)
      with False Cons have eq: "aquicksort_loop v t pl pr cdepth stack f =
          aquicksort_loop v ?t1 l r d rest False"
        by (subst aquicksort_loop.simps) (auto simp add: Let_def)
      have ap: "ranges_apart (length ?t1) ((l, r) # map (\<lambda>(l, r, d). (l, r)) rest)"
        using rs Cons top len by simp
      have oo': "ordered_outside v ?t1 ((l, r) # map (\<lambda>(l, r, d). (l, r)) rest)"
        using oo Cons top by simp
      have "top = (l, (r, d))" using top by simp
      from "1.IH"(3) [OF False refl Cons _ _ ap oo', of "(r, d)"] top len m show ?thesis
        unfolding eq by simp
    qed
  qed
qed

text \<open>
  So \<^verbatim>\<open>argsort\<close> returns the positions in ascending order of their values, and
  \<^verbatim>\<open>sort_values\<close>, in both directions and with NaN last, meets the contract.
\<close>

lemma argsort_spec:
  "length (argsort v) = length v \<and> mset (argsort v) = mset [0 ..< length v]
   \<and> (\<forall>i j. i < j \<and> j < length v \<longrightarrow> v ! (argsort v ! i) \<le> v ! (argsort v ! j))"
proof (cases "length v = 0")
  case True
  then show ?thesis by (simp add: argsort_def aquicksort_def)
next
  case False
  let ?n = "length v"
  let ?t = "[0 ..< ?n]"
  from False have ap: "ranges_apart (length ?t) ((0, ?n - 1) # map (\<lambda>(l, r, d). (l, r)) [])"
    by simp
  have oo: "ordered_outside v ?t ((0, ?n - 1) # map (\<lambda>(l, r, d). (l, r)) [])"
    unfolding ordered_outside_def by auto
  from aquicksort_loop_spec [OF ap oo, of "int (npy_get_msb ?n) * 2" False] False
  show ?thesis
    by (simp add: argsort_def aquicksort_def ordered_outside_def)
qed

lemma argsort_nth_less:
  assumes "i < length v"
  shows "argsort v ! i < length v"
proof -
  from assms have "argsort v ! i \<in> set (argsort v)"
    using argsort_spec [of v] by simp
  also have "set (argsort v) = set [0 ..< length v]"
    using argsort_spec [of v] by (metis mset_eq_setD)
  finally show ?thesis by simp
qed

lemma map_filter_Some:
  "map Some (List.map_filter (\<lambda>x. x) items) = filter (\<lambda>x. x \<noteq> None) items"
  by (induction items) (auto simp add: map_filter_simps split: option.splits)

lemma nth_filter_positions:
  "map (\<lambda>i. items ! i) (filter (\<lambda>i. P (items ! i)) [0 ..< length items]) = filter P items"
proof -
  have "map (\<lambda>i. items ! i) (filter (\<lambda>i. P (items ! i)) [0 ..< length items]) =
      filter P (map (\<lambda>i. items ! i) [0 ..< length items])"
    by (simp add: filter_map comp_def)
  then show ?thesis by (simp add: map_nth)
qed

lemma argsort_positions:
  fixes items :: "'k::linorder option list"
  assumes "map (\<lambda>i. items ! i) idx = map Some vals"
  shows "mset (map (\<lambda>p. idx ! p) (argsort vals)) = mset idx"
    and "sorted_wrt (\<lambda>a b. key_le True (items ! a) (items ! b)) (map (\<lambda>p. idx ! p) (argsort vals))"
    and "\<forall>a \<in> set (map (\<lambda>p. idx ! p) (argsort vals)). items ! a \<noteq> None"
proof -
  from assms have len: "length idx = length vals"
    by (metis length_map)
  from assms have key: "items ! (idx ! q) = Some (vals ! q)" if "q < length vals" for q
    using that len by (metis nth_map)
  note a = argsort_spec [of vals]
  have "mset (map (\<lambda>p. idx ! p) (argsort vals)) = image_mset (\<lambda>p. idx ! p) (mset (argsort vals))"
    by simp
  also have "\<dots> = image_mset (\<lambda>p. idx ! p) (mset [0 ..< length idx])"
    using a len by simp
  also have "\<dots> = mset (map (\<lambda>p. idx ! p) [0 ..< length idx])"
    by simp
  also have "\<dots> = mset idx"
    by (simp add: map_nth)
  finally show "mset (map (\<lambda>p. idx ! p) (argsort vals)) = mset idx" .
  show "sorted_wrt (\<lambda>a b. key_le True (items ! a) (items ! b)) (map (\<lambda>p. idx ! p) (argsort vals))"
    unfolding sorted_wrt_iff_nth_less
  proof (intro allI impI)
    fix i j assume ij: "i < j" "j < length (map (\<lambda>p. idx ! p) (argsort vals))"
    with a have b: "i < length vals" "j < length vals" by simp_all
    from a ij b have "vals ! (argsort vals ! i) \<le> vals ! (argsort vals ! j)" by simp
    with b a key [OF argsort_nth_less [OF b(1)]] key [OF argsort_nth_less [OF b(2)]]
    show "key_le True (items ! (map (\<lambda>p. idx ! p) (argsort vals) ! i))
        (items ! (map (\<lambda>p. idx ! p) (argsort vals) ! j))"
      by (simp add: key_le_def)
  qed
  show "\<forall>a \<in> set (map (\<lambda>p. idx ! p) (argsort vals)). items ! a \<noteq> None"
  proof
    fix a assume "a \<in> set (map (\<lambda>p. idx ! p) (argsort vals))"
    then obtain i where "i < length vals" "a = idx ! (argsort vals ! i)"
      using a by (auto simp add: in_set_conv_nth)
    with key [OF argsort_nth_less [of i vals]] show "items ! a \<noteq> None" by simp
  qed
qed

lemma mset_filter_both: "mset (filter P xs) + mset (filter (\<lambda>x. \<not> P x) xs) = mset xs"
  by (induction xs) simp_all

lemma nargsort_assemble:
  fixes items :: "'k::linorder option list"
  assumes "mset L = mset (filter (\<lambda>i. items ! i \<noteq> None) [0 ..< length items])"
    and "sorted_wrt (\<lambda>a b. key_le ascending (items ! a) (items ! b)) L"
  shows "mset (L @ filter (\<lambda>i. items ! i = None) [0 ..< length items]) = mset [0 ..< length items]"
    and "sorted_wrt (\<lambda>a b. key_le ascending (items ! a) (items ! b))
           (L @ filter (\<lambda>i. items ! i = None) [0 ..< length items])"
proof -
  let ?nan = "filter (\<lambda>i. items ! i = None) [0 ..< length items]"
  have "?nan = filter (\<lambda>i. \<not> items ! i \<noteq> None) [0 ..< length items]"
    by simp
  with assms(1) mset_filter_both [of "\<lambda>i. items ! i \<noteq> None" "[0 ..< length items]"]
  show "mset (L @ ?nan) = mset [0 ..< length items]"
    by (simp only: mset_append)
  have srtN: "sorted_wrt (\<lambda>a b. key_le ascending (items ! a) (items ! b)) ?nan"
    by (rule sorted_wrt_mono_rel [of _ "\<lambda>a b. True"]) (auto simp add: key_le_def)
  have cross: "\<forall>a \<in> set L. \<forall>b \<in> set ?nan. key_le ascending (items ! a) (items ! b)"
    by (auto simp add: key_le_def)
  from assms(2) srtN cross
  show "sorted_wrt (\<lambda>a b. key_le ascending (items ! a) (items ! b)) (L @ ?nan)"
    unfolding sorted_wrt_append by blast
qed

lemma nargsort_spec:
  fixes items :: "'k::linorder option list"
  shows "mset (nargsort items ascending) = mset [0 ..< length items]
       \<and> sorted_wrt (\<lambda>a b. key_le ascending (items ! a) (items ! b)) (nargsort items ascending)"
proof -
  let ?idx = "filter (\<lambda>i. items ! i \<noteq> None) [0 ..< length items]"
  let ?nan = "filter (\<lambda>i. items ! i = None) [0 ..< length items]"
  let ?vals = "List.map_filter (\<lambda>x. x) items"
  have base: "map (\<lambda>i. items ! i) ?idx = map Some ?vals"
    using nth_filter_positions [of items "\<lambda>x. x \<noteq> None"] by (simp only: map_filter_Some)
  show ?thesis
  proof (cases ascending)
    case True
    let ?A = "map (\<lambda>p. ?idx ! p) (argsort ?vals)"
    from True have eq: "nargsort items ascending = ?A @ ?nan"
      by (simp add: nargsort_def Let_def)
    note A = argsort_positions [OF base]
    from nargsort_assemble [of ?A items ascending] A(1,2) True show ?thesis
      unfolding eq by simp
  next
    case False
    let ?A = "map (\<lambda>p. rev ?idx ! p) (argsort (rev ?vals))"
    from False have eq: "nargsort items ascending = rev ?A @ ?nan"
      by (simp add: nargsort_def Let_def)
    have pos: "map (\<lambda>i. items ! i) (rev ?idx) = map Some (rev ?vals)"
      by (simp only: rev_map [symmetric] base)
    note A = argsort_positions [OF pos]
    have "sorted_wrt (\<lambda>a b. key_le False (items ! b) (items ! a)) ?A"
      using A(2)
    proof (rule sorted_wrt_mono_rel [rotated])
      fix a b assume "a \<in> set ?A" "b \<in> set ?A" "key_le True (items ! a) (items ! b)"
      with A(3) show "key_le False (items ! b) (items ! a)"
        by (auto simp add: key_le_def split: option.splits)
    qed
    then have "sorted_wrt (\<lambda>a b. key_le ascending (items ! a) (items ! b)) (rev ?A)"
      using False by (simp add: sorted_wrt_rev)
    moreover have "mset (rev ?A) = mset ?idx"
      using A(1) by simp
    ultimately show ?thesis
      unfolding eq using nargsort_assemble [of "rev ?A" items ascending] by blast
  qed
qed

lemma sort_values_meets_spec: "sort_values_spec sort_values"
  unfolding sort_values_spec_def
proof (intro allI conjI)
  fix key :: "'a \<Rightarrow> 'b option" and ascending and rows :: "'a list"
  let ?ix = "nargsort (map key rows) ascending"
  note n = nargsort_spec [where items = "map key rows" and ascending = ascending]
  have "mset (sort_values key ascending rows) = image_mset (\<lambda>i. rows ! i) (mset ?ix)"
    by (simp add: sort_values_def)
  also have "\<dots> = mset (map (\<lambda>i. rows ! i) [0 ..< length rows])"
    using n by simp
  also have "\<dots> = mset rows"
    by (simp add: map_nth)
  finally show "mset (sort_values key ascending rows) = mset rows" .
  from n have "mset ?ix = mset [0 ..< length rows]" by simp
  then have "set ?ix = set [0 ..< length rows]"
    by (rule mset_eq_setD)
  then have valid: "\<And>a. a \<in> set ?ix \<Longrightarrow> a < length rows"
    by simp
  from n have "sorted_wrt (\<lambda>a b. key_le ascending (map key rows ! a) (map key rows ! b)) ?ix"
    by simp
  then have "sorted_wrt (\<lambda>a b. key_le ascending (key (rows ! a)) (key (rows ! b))) ?ix"
  proof (rule sorted_wrt_mono_rel [rotated])
    fix a b assume "a \<in> set ?ix" "b \<in> set ?ix"
      "key_le ascending (map key rows ! a) (map key rows ! b)"
    with valid show "key_le ascending (key (rows ! a)) (key (rows ! b))"
      by simp
  qed
  then show "sorted_wrt (\<lambda>r r'. key_le ascending (key r) (key r')) (sort_values key ascending rows)"
    by (simp add: sort_values_def sorted_wrt_map)
qed

text \<open>
  What any sort that meets the contract gives after \<^verbatim>\<open>head(n)\<close>: the rows are in key
  order, there are \<open>n\<close> of them or as many as the table has, they are rows of the table,
  and no row left out comes before one of them in key order.
\<close>

lemma sort_values_spec_cut:
  assumes "sort_values_spec srt"
  shows "sorted_wrt (\<lambda>r r'. key_le asc (key r) (key r')) (head n (srt key asc rows))"
    and "length (head n (srt key asc rows)) = min n (length rows)"
    and "mset (head n (srt key asc rows)) \<subseteq># mset rows"
    and "\<forall>r \<in> set (head n (srt key asc rows)).
           \<forall>r' \<in># mset rows - mset (head n (srt key asc rows)). key_le asc (key r) (key r')"
proof -
  let ?s = "srt key asc rows"
  from assms have m: "mset ?s = mset rows"
    and srt: "sorted_wrt (\<lambda>r r'. key_le asc (key r) (key r')) ?s"
    by (simp_all add: sort_values_spec_def)
  from m have len: "length ?s = length rows"
    by (rule mset_eq_length)
  have "mset (take n ?s @ drop n ?s) = mset rows"
    by (simp only: append_take_drop_id m)
  then have split: "mset rows = mset (take n ?s) + mset (drop n ?s)"
    by (simp only: mset_append)
  from srt show "sorted_wrt (\<lambda>r r'. key_le asc (key r) (key r')) (head n ?s)"
    unfolding head_def by (rule sorted_wrt_take)
  from len show "length (head n ?s) = min n (length rows)"
    by (simp add: head_def min.commute)
  from split show "mset (head n ?s) \<subseteq># mset rows"
    by (simp add: head_def)
  from split have rest: "mset rows - mset (head n ?s) = mset (drop n ?s)"
    by (simp add: head_def)
  from srt have "sorted_wrt (\<lambda>r r'. key_le asc (key r) (key r')) (take n ?s @ drop n ?s)"
    by simp
  then have "\<forall>r \<in> set (take n ?s). \<forall>r' \<in> set (drop n ?s). key_le asc (key r) (key r')"
    unfolding sorted_wrt_append by blast
  then show "\<forall>r \<in> set (head n ?s).
           \<forall>r' \<in># mset rows - mset (head n ?s). key_le asc (key r) (key r')"
    unfolding rest by (simp add: head_def)
qed

subsection \<open>Top and bottom performers\<close>

text \<open>
  C5, as the script has it, with the sort that the script calls: for every cohort, field,
  direction and \<open>n\<close>, the first \<open>n\<close> rows of the sorted cohort are in the order of the
  field, there are \<open>n\<close> of them or the whole cohort if that is smaller, and they are rows
  of the cohort. In particular the top list is in descending and the bottom list in
  ascending order of average score, each has five rows or the whole cohort, and no row left
  out scores higher than a top row or lower than a bottom row. The order of rows with equal
  values is not fixed.
\<close>

theorem performers_sorted_and_cut:
  "sorted_wrt (\<lambda>r r'. key_le ascending (field r) (field r'))
       (head n (sort_values field ascending cohort))
   \<and> length (head n (sort_values field ascending cohort)) = min n (length cohort)
   \<and> mset (head n (sort_values field ascending cohort)) \<subseteq># mset cohort
   \<and> sorted_wrt (\<lambda>r r'. Average_Score r \<ge> Average_Score r') (top_performers sort_values cohort)
   \<and> sorted_wrt (\<lambda>r r'. Average_Score r \<le> Average_Score r') (bottom_performers sort_values cohort)
   \<and> length (top_performers sort_values cohort) = min 5 (length cohort)
   \<and> length (bottom_performers sort_values cohort) = min 5 (length cohort)
   \<and> mset (top_performers sort_values cohort) \<subseteq># mset cohort
   \<and> mset (bottom_performers sort_values cohort) \<subseteq># mset cohort
   \<and> (\<forall>r \<in> set (top_performers sort_values cohort).
        \<forall>r' \<in># mset cohort - mset (top_performers sort_values cohort).
          Average_Score r \<ge> Average_Score r')
   \<and> (\<forall>r \<in> set (bottom_performers sort_values cohort).
        \<forall>r' \<in># mset cohort - mset (bottom_performers sort_values cohort).
          Average_Score r \<le> Average_Score r')"
proof -
  note any = sort_values_spec_cut(1-3) [OF sort_values_meets_spec, where n = n and key = field
      and asc = ascending and rows = cohort]
  note top = sort_values_spec_cut [OF sort_values_meets_spec, where n = 5
      and key = "\<lambda>r. Some (Average_Score r)" and asc = False and rows = cohort]
  note bottom = sort_values_spec_cut [OF sort_values_meets_spec, where n = 5
      and key = "\<lambda>r. Some (Average_Score r)" and asc = True and rows = cohort]
  from top bottom have
    "sorted_wrt (\<lambda>r r'. Average_Score r \<ge> Average_Score r') (top_performers sort_values cohort)
       \<and> sorted_wrt (\<lambda>r r'. Average_Score r \<le> Average_Score r') (bottom_performers sort_values cohort)
       \<and> length (top_performers sort_values cohort) = min 5 (length cohort)
       \<and> length (bottom_performers sort_values cohort) = min 5 (length cohort)
       \<and> mset (top_performers sort_values cohort) \<subseteq># mset cohort
       \<and> mset (bottom_performers sort_values cohort) \<subseteq># mset cohort
       \<and> (\<forall>r \<in> set (top_performers sort_values cohort).
            \<forall>r' \<in># mset cohort - mset (top_performers sort_values cohort).
              Average_Score r \<ge> Average_Score r')
       \<and> (\<forall>r \<in> set (bottom_performers sort_values cohort).
            \<forall>r' \<in># mset cohort - mset (bottom_performers sort_values cohort).
              Average_Score r \<le> Average_Score r')"
    by (simp add: top_performers_def bottom_performers_def key_le_def)
  with any show ?thesis by blast
qed

theorem performers_sorted_and_cut_witness:
  "map Average_Score (top_performers sort_values ex_summary) = [90, 80, 70, 60]
   \<and> map Average_Score (bottom_performers sort_values ex_summary) = [60, 70, 80, 90]
   \<and> length (top_performers sort_values ex_summary) = min 5 (length ex_summary)
   \<and> length (top_performers sort_values tied_cohort) = 5
   \<and> length (bottom_performers sort_values tied_cohort) = 5"
proof -
  have scores: "map Average_Score (top_performers sort_values ex_summary) = [90, 80, 70, 60]
      \<and> map Average_Score (bottom_performers sort_values ex_summary) = [60, 70, 80, 90]"
    by code_simp
  have size: "length tied_cohort = 18"
    by (simp add: tied_cohort_def)
  from scores size
    performers_sorted_and_cut [where cohort = ex_summary
      and field = "\<lambda>r. Some (Average_Score r)" and n = 5 and ascending = False]
    performers_sorted_and_cut [where cohort = tied_cohort
      and field = "\<lambda>r. Some (Average_Score r)" and n = 5 and ascending = False]
  show ?thesis
    by simp
qed

text \<open>
  C5, as stated, asks for ties in original row order. On eighteen students with the same
  score, in the order 01 to 18, the stable order of both lists is 01 to 05. The sort that
  the script calls returns 01, 02, 17, 16, 15 as the top list and 01, 16, 15, 14, 13 as the
  bottom list.
\<close>

theorem tie_order_counterexample:
  "map ID (top_performers sort_values tied_cohort) = [''01'', ''02'', ''17'', ''16'', ''15'']
   \<and> map ID (bottom_performers sort_values tied_cohort) = [''01'', ''16'', ''15'', ''14'', ''13'']
   \<and> map ID (top_performers stable_sort_values tied_cohort) = [''01'', ''02'', ''03'', ''04'', ''05'']
   \<and> map ID (bottom_performers stable_sort_values tied_cohort) = [''01'', ''02'', ''03'', ''04'', ''05'']
   \<and> top_performers sort_values tied_cohort \<noteq> head 5 tied_cohort
   \<and> bottom_performers sort_values tied_cohort \<noteq> head 5 tied_cohort"
  by code_simp

subsection \<open>Upcoming deadlines\<close>

lemma set_merge_on_ID:
  "set (merge_on_ID key table cohort) = {row \<in> set table. key row \<in> ID ` set cohort}"
  by (auto simp add: merge_on_ID_def image_iff) (metis+)

lemma set_upcoming:
  "set (upcoming now fa) = {a \<in> set fa. \<exists>d. Deadline a = Some d \<and> now \<le> d}"
  by (auto simp add: upcoming_def split: option.splits)

lemma set_upcoming_display:
  assumes "sort_values_spec srt"
  shows "set (upcoming_display srt now fa) \<subseteq> set (upcoming now fa)"
proof -
  from assms have "mset (srt Deadline True (upcoming now fa)) = mset (upcoming now fa)"
    by (simp add: sort_values_spec_def)
  then have "set (srt Deadline True (upcoming now fa)) = set (upcoming now fa)"
    by (rule mset_eq_setD)
  then show ?thesis
    by (auto simp add: upcoming_display_def head_def Let_def dest: in_set_takeD)
qed

text \<open>
  C10. The upcoming rows are the joined rows whose deadline is a date not before the
  current time; the table shown holds only such rows; and a row whose deadline text did
  not parse on load is in neither. No case of the selection is an error.
\<close>

theorem upcoming_excludes_unknown_deadlines:
  assumes "sort_values_spec srt"
  shows "set (upcoming now (merge_on_ID assign_ID (load_assignments parse csv_rows) cohort)) =
           {a \<in> set (merge_on_ID assign_ID (load_assignments parse csv_rows) cohort).
              \<exists>d. Deadline a = Some d \<and> now \<le> d}
       \<and> set (upcoming_display srt now
                (merge_on_ID assign_ID (load_assignments parse csv_rows) cohort))
           \<subseteq> set (upcoming now (merge_on_ID assign_ID (load_assignments parse csv_rows) cohort))
       \<and> (\<forall>r \<in> set csv_rows. parse (csv_Deadline r) = None \<longrightarrow>
             load_assignment parse r \<notin>
               set (upcoming now (merge_on_ID assign_ID (load_assignments parse csv_rows) cohort))
           \<and> load_assignment parse r \<notin>
               set (upcoming_display srt now
                      (merge_on_ID assign_ID (load_assignments parse csv_rows) cohort)))"
proof -
  let ?fa = "merge_on_ID assign_ID (load_assignments parse csv_rows) cohort"
  have 1: "set (upcoming now ?fa) = {a \<in> set ?fa. \<exists>d. Deadline a = Some d \<and> now \<le> d}"
    by (rule set_upcoming)
  have 2: "set (upcoming_display srt now ?fa) \<subseteq> set (upcoming now ?fa)"
    using assms by (rule set_upcoming_display)
  have 3: "load_assignment parse r \<notin> set (upcoming now ?fa)
           \<and> load_assignment parse r \<notin> set (upcoming_display srt now ?fa)"
    if "parse (csv_Deadline r) = None" for r
  proof -
    from that have "Deadline (load_assignment parse r) = None"
      by (simp add: load_assignment_def)
    then have "load_assignment parse r \<notin> set (upcoming now ?fa)"
      by (simp add: set_upcoming)
    with 2 show ?thesis by blast
  qed
  from 1 2 3 show ?thesis by blast
qed

theorem upcoming_excludes_unknown_deadlines_witness:
  "sort_values_spec (stable_sort_values :: (assignment_row \<Rightarrow> int option) \<Rightarrow> bool \<Rightarrow> assignment_row list \<Rightarrow> assignment_row list)
   \<and> ex_parse ''next week'' = None
   \<and> map Deadline (merge_on_ID assign_ID (load_assignments ex_parse ex_assignments_csv) ex_summary)
        = [Some 300, None, Some 100, Some 200]
   \<and> map Assignment (upcoming 150
          (merge_on_ID assign_ID (load_assignments ex_parse ex_assignments_csv) ex_summary))
        = [''Project'', ''Lab'']
   \<and> map Assignment (upcoming_display stable_sort_values 150
          (merge_on_ID assign_ID (load_assignments ex_parse ex_assignments_csv) ex_summary))
        = [''Lab'', ''Project'']"
  using upcoming_excludes_unknown_deadlines [OF stable_sort_values_spec,
      of 150 ex_parse ex_assignments_csv ex_summary]
    stable_sort_values_spec [where ?'a = assignment_row and ?'b = int]
  by (simp add: upcoming_display_def upcoming_def head_def stable_sort_values_def key_le_def
      merge_on_ID_def load_assignments_def load_assignment_def ex_parse_def
      ex_assignments_csv_def csv_assignment_def ex_summary_def student_def)

subsection \<open>Subject and term means\<close>

text \<open>
  Sums over the groups of distinct keys add up to the sum over the rows that have one of
  the keys.
\<close>

lemma sum_list_filter_disjoint:
  fixes g :: "'a \<Rightarrow> 'b::comm_monoid_add"
  assumes "\<And>x. x \<in> set xs \<Longrightarrow> \<not> (P x \<and> Q x)"
  shows "sum_list (map g (filter P xs)) + sum_list (map g (filter Q xs)) =
           sum_list (map g (filter (\<lambda>x. P x \<or> Q x) xs))"
  using assms by (induction xs) (auto simp add: ac_simps)

lemma sum_list_groups:
  fixes g :: "'a \<Rightarrow> 'b::comm_monoid_add"
  assumes "distinct ks"
  shows "(\<Sum>k\<leftarrow>ks. sum_list (map g (filter (\<lambda>r. f r = k) rows))) =
           sum_list (map g (filter (\<lambda>r. f r \<in> set ks) rows))"
  using assms
proof (induction ks)
  case Nil
  show ?case by simp
next
  case (Cons k ks)
  then have "(\<Sum>k\<leftarrow>k # ks. sum_list (map g (filter (\<lambda>r. f r = k) rows))) =
      sum_list (map g (filter (\<lambda>r. f r = k) rows))
      + sum_list (map g (filter (\<lambda>r. f r \<in> set ks) rows))"
    by simp
  also have "\<dots> = sum_list (map g (filter (\<lambda>r. f r = k \<or> f r \<in> set ks) rows))"
    using Cons.prems by (intro sum_list_filter_disjoint) auto
  also have "\<dots> = sum_list (map g (filter (\<lambda>r. f r \<in> set (k # ks)) rows))"
    by (simp add: eq_commute [of k])
  finally show ?case .
qed

lemma length_groups:
  assumes "distinct ks"
  shows "(\<Sum>k\<leftarrow>ks. length (filter (\<lambda>r. f r = k) rows)) =
           length (filter (\<lambda>r. f r \<in> set ks) rows)"
  using sum_list_groups [OF assms, of "\<lambda>_. 1::nat" f rows] by (simp add: sum_list_triv)

lemma weighted_sum_groups:
  assumes "\<And>k. k \<in> set ks \<Longrightarrow> G k \<noteq> []"
  shows "weighted_sum (map (\<lambda>k. (mean (map col (G k)), length (G k))) ks) =
           Some (\<Sum>k\<leftarrow>ks. sum_list (map col (G k)))"
  using assms by (induction ks) (simp_all add: mean_def)

lemma weighted_mean_groups:
  assumes "distinct ks" and "\<And>k. k \<in> set ks \<Longrightarrow> filter (\<lambda>r. f r = k) rows \<noteq> []"
    and "ks \<noteq> []"
  shows "weighted_mean (map (\<lambda>k. (mean (map col (filter (\<lambda>r. f r = k) rows)),
                                   length (filter (\<lambda>r. f r = k) rows))) ks) =
           mean (map col (filter (\<lambda>r. f r \<in> set ks) rows))"
proof -
  let ?G = "\<lambda>k. filter (\<lambda>r. f r = k) rows"
  let ?all = "filter (\<lambda>r. f r \<in> set ks) rows"
  have n: "sum_list (map snd (map (\<lambda>k. (mean (map col (?G k)), length (?G k))) ks)) = length ?all"
    using length_groups [OF assms(1), of f rows] by (simp add: comp_def)
  from assms(3) obtain k where k: "k \<in> set ks" by (cases ks) auto
  with assms(2) obtain r where "r \<in> set rows" "f r = k"
    by (fastforce simp add: filter_empty_conv)
  with k have ne: "?all \<noteq> []"
    by (auto simp add: filter_empty_conv)
  have ws: "weighted_sum (map (\<lambda>k. (mean (map col (?G k)), length (?G k))) ks) =
      Some (sum_list (map col ?all))"
    using weighted_sum_groups [of ks ?G col] assms(2) sum_list_groups [OF assms(1), of col f rows]
    by simp
  show ?thesis
    unfolding weighted_mean_def Let_def n ws using ne by (simp add: mean_def)
qed

lemma reaggregate_term_scores:
  "spec_reaggregate_by_subject (term_scores merged_scores)
       (groupby_size (\<lambda>r. (Subject r, Term r)) merged_scores) =
     subject_scores merged_scores"
proof -
  let ?key = "\<lambda>r. (Subject r, Term r)"
  let ?K = "sort (remdups (map ?key merged_scores))"
  let ?G = "\<lambda>k. filter (\<lambda>r. ?key r = k) merged_scores"
  have subjects: "sort (remdups (map (\<lambda>(k, m). fst k) (term_scores merged_scores))) =
      sort (remdups (map Subject merged_scores))"
    by (rule sort_remdups_eqI) (force simp add: term_scores_def groupby_mean_def)
  have entry: "weighted_mean
        (map (\<lambda>(k, m). (m, (case map_of (groupby_size ?key merged_scores) k of
                               None \<Rightarrow> 0 | Some n \<Rightarrow> n)))
             (filter (\<lambda>(k, m). fst k = s) (term_scores merged_scores))) =
      mean (map Score (filter (\<lambda>r. Subject r = s) merged_scores))"
    if s: "s \<in> Subject ` set merged_scores" for s
  proof -
    let ?Ks = "filter (\<lambda>k. fst k = s) ?K"
    have "map (\<lambda>(k, m). (m, (case map_of (groupby_size ?key merged_scores) k of
                               None \<Rightarrow> 0 | Some n \<Rightarrow> n)))
             (filter (\<lambda>(k, m). fst k = s) (term_scores merged_scores)) =
        map (\<lambda>k. (mean (map Score (?G k)), length (?G k))) ?Ks"
      by (simp add: term_scores_def groupby_mean_def groupby_size_def filter_map comp_def
          map_of_keyed)
    moreover have "distinct ?Ks" by simp
    moreover have "?G k \<noteq> []" if "k \<in> set ?Ks" for k
      using that by (auto simp add: filter_empty_conv)
    moreover have "?Ks \<noteq> []"
      using s by (auto simp add: filter_empty_conv)
    moreover have "filter (\<lambda>r. ?key r \<in> set ?Ks) merged_scores =
        filter (\<lambda>r. Subject r = s) merged_scores"
      by (rule filter_cong) auto
    ultimately show ?thesis
      using weighted_mean_groups [of ?Ks ?key merged_scores Score] by simp
  qed
  show ?thesis
    unfolding spec_reaggregate_by_subject_def subjects
    unfolding subject_scores_def groupby_mean_def
    by (rule map_cong [OF refl]) (simp add: entry)
qed


text \<open>
  C8. For the scores joined to any cohort, the means by subject and term, re-aggregated
  to the subject as a mean weighted by the row count of each (subject, term) group, are
  the means by subject: the same subjects in the same order with the same values. The
  arithmetic is exact, so the two agree without a tolerance.
\<close>

theorem term_scores_reconcile:
  "spec_reaggregate_by_subject
       (term_scores (merge_on_ID score_ID scores cohort))
       (groupby_size (\<lambda>r. (Subject r, Term r)) (merge_on_ID score_ID scores cohort)) =
     subject_scores (merge_on_ID score_ID scores cohort)"
  by (rule reaggregate_term_scores)

theorem term_scores_reconcile_witness:
  "term_scores (merge_on_ID score_ID ex_scores ex_summary) =
     [((''English'', ''T1''), Some 70), ((''Math'', ''T1''), Some 70), ((''Math'', ''T2''), Some 90)]
   \<and> groupby_size (\<lambda>r. (Subject r, Term r)) (merge_on_ID score_ID ex_scores ex_summary) =
     [((''English'', ''T1''), 1), ((''Math'', ''T1''), 2), ((''Math'', ''T2''), 1)]
   \<and> subject_scores (merge_on_ID score_ID ex_scores ex_summary) =
     [(''English'', Some 70), (''Math'', Some (230 / 3))]
   \<and> spec_reaggregate_by_subject
       (term_scores (merge_on_ID score_ID ex_scores ex_summary))
       (groupby_size (\<lambda>r. (Subject r, Term r)) (merge_on_ID score_ID ex_scores ex_summary)) =
     [(''English'', Some 70), (''Math'', Some (230 / 3))]"
  using term_scores_reconcile [of ex_scores ex_summary]
  by (simp add: term_scores_def subject_scores_def groupby_mean_def groupby_size_def mean_def
      merge_on_ID_def ex_scores_def ex_summary_def student_def)

end
